theory Spec2Isabelle
  imports Main "HOL-Library.Word" "HOL-Library.Log_Nat" "HOL-Library.Sublist"
begin

section \<open>Machine arithmetic of the sources\<close>

subsection \<open>IEEE 754 binary64, the \<open>double\<close> of both sources\<close>

text \<open>
  A \<open>double\<close> is a sign, a significand and an exponent: \<open>Finite s m e\<close> stands for
  \<open>(-1)^s * m * 2^e\<close>. The bit patterns of binary64 are the values with
  \<open>0 \<le> m < 2^53\<close>, \<open>-1074 \<le> e \<le> 971\<close> and \<open>2^52 \<le> m\<close> (normal) or \<open>e = -1074\<close>
  (subnormal and zero); \<open>is_double\<close> says so. The two zeros are \<open>Finite False 0 (-1074)\<close>
  and \<open>Finite True 0 (-1074)\<close>. A NaN keeps its sign bit, which \<open>printf\<close> shows; its
  payload is not modelled.
\<close>

datatype double = Finite bool int int | Infinity bool | NaN bool

definition is_double :: "double \<Rightarrow> bool" where
  "is_double d =
     (case d of
        Finite s m e \<Rightarrow>
          0 \<le> m \<and> m < 2 ^ 53 \<and> - 1074 \<le> e \<and> e \<le> 971 \<and> (2 ^ 52 \<le> m \<or> e = - 1074)
      | Infinity s \<Rightarrow> True
      | NaN s \<Rightarrow> True)"

definition is_finite :: "double \<Rightarrow> bool" where
  "is_finite d = (case d of Finite s m e \<Rightarrow> True | Infinity s \<Rightarrow> False | NaN s \<Rightarrow> False)"

definition is_nan :: "double \<Rightarrow> bool" where
  "is_nan d = (case d of Finite s m e \<Rightarrow> False | Infinity s \<Rightarrow> False | NaN s \<Rightarrow> True)"

text \<open>The exact value of a finite double, as a rational (0 for infinities and NaN).\<close>

definition valof :: "double \<Rightarrow> rat" where
  "valof d =
     (case d of
        Finite s m e \<Rightarrow> (if s then - 1 else 1) * of_int m * 2 powi e
      | Infinity s \<Rightarrow> 0
      | NaN s \<Rightarrow> 0)"

text \<open>
  Rounding to nearest, ties to even (the default rounding mode, which neither source
  changes): the double nearest to \<open>(-1)^s * M * 2^E\<close>. The significand keeps 53 bits,
  fewer below \<open>2^-1022\<close>; what is shifted out decides the rounding; a result of
  \<open>2^1024\<close> or more is an infinity.
\<close>

definition round_to_double :: "bool \<Rightarrow> int \<Rightarrow> int \<Rightarrow> double" where
  "round_to_double s M E =
     (if M \<le> 0 then Finite s 0 (- 1074)
      else
        let e' = max (E + bitlen M - 53) (- 1074) in
        if e' \<le> E then
          (if 971 < e' then Infinity s else Finite s (M * 2 ^ nat (E - e')) e')
        else
          let sh = nat (e' - E);
              q = M div 2 ^ sh;
              r = M mod 2 ^ sh;
              half = 2 ^ (sh - 1);
              q' = (if half < r \<or> (r = half \<and> odd q) then q + 1 else q)
          in
            if q' = 2 ^ 53 then (if 971 < e' + 1 then Infinity s else Finite s (2 ^ 52) (e' + 1))
            else if 971 < e' then Infinity s
            else Finite s q' e')"

definition with_sign :: "bool \<Rightarrow> int \<Rightarrow> int" where
  "with_sign s m = (if s then - m else m)"

text \<open>
  Addition: the exact sum of the two values, rounded. An exact zero sum is \<open>+0\<close> unless
  both operands are negative (then both are \<open>-0\<close>). IEEE 754 leaves the sign of a NaN
  result open; the model takes what the scalar instructions of x86-64 do: an operand
  that is a NaN is the result, with its sign (the first operand, in the order of the
  source, when both are NaNs), and an operation without a value (\<open>inf - inf\<close>,
  \<open>0 * inf\<close>) gives the NaN whose sign bit is set.
\<close>

fun fadd :: "double \<Rightarrow> double \<Rightarrow> double" where
  "fadd (NaN s) y = NaN s"
| "fadd x (NaN t) = NaN t"
| "fadd (Infinity s) (Infinity t) = (if s = t then Infinity s else NaN True)"
| "fadd (Infinity s) (Finite t m e) = Infinity s"
| "fadd (Finite s m e) (Infinity t) = Infinity t"
| "fadd (Finite s1 m1 e1) (Finite s2 m2 e2) =
     (let e = min e1 e2;
          v = with_sign s1 (m1 * 2 ^ nat (e1 - e)) + with_sign s2 (m2 * 2 ^ nat (e2 - e))
      in if v = 0 then Finite (s1 \<and> s2) 0 (- 1074)
         else round_to_double (v < 0) \<bar>v\<bar> e)"

fun fneg :: "double \<Rightarrow> double" where
  "fneg (Finite s m e) = Finite (\<not> s) m e"
| "fneg (Infinity s) = Infinity (\<not> s)"
| "fneg (NaN s) = NaN (\<not> s)"

text \<open>
  Subtraction adds the negated second operand, except that a NaN operand is the
  result as it is, with its own sign.
\<close>

definition fsub :: "double \<Rightarrow> double \<Rightarrow> double" where
  "fsub x y = (if is_nan x then x else if is_nan y then y else fadd x (fneg y))"

fun fmul :: "double \<Rightarrow> double \<Rightarrow> double" where
  "fmul (NaN s) y = NaN s"
| "fmul x (NaN t) = NaN t"
| "fmul (Infinity s) (Infinity t) = Infinity (s \<noteq> t)"
| "fmul (Infinity s) (Finite t m e) = (if m = 0 then NaN True else Infinity (s \<noteq> t))"
| "fmul (Finite s m e) (Infinity t) = (if m = 0 then NaN True else Infinity (s \<noteq> t))"
| "fmul (Finite s1 m1 e1) (Finite s2 m2 e2) =
     (if m1 * m2 = 0 then Finite (s1 \<noteq> s2) 0 (- 1074)
      else round_to_double (s1 \<noteq> s2) (m1 * m2) (e1 + e2))"

text \<open>
  The comparison \<open>==\<close> of two doubles: a NaN equals nothing, the two zeros are equal,
  and any other two doubles are equal when they are the same double.
\<close>

definition is_zero :: "double \<Rightarrow> bool" where
  "is_zero d = (d = Finite False 0 (- 1074) \<or> d = Finite True 0 (- 1074))"

definition double_eq :: "double \<Rightarrow> double \<Rightarrow> bool" where
  "double_eq a b = (\<not> is_nan a \<and> \<not> is_nan b \<and> (a = b \<or> (is_zero a \<and> is_zero b)))"

text \<open>
  A sum that does not round: it is finite and its value is the sum of the values.
  \<open>exact_sum\<close> is the integer that \<open>fadd\<close> rounds, in units of \<open>2 ^ min e1 e2\<close>.
\<close>

definition exact_add :: "double \<Rightarrow> double \<Rightarrow> bool" where
  "exact_add a b = (is_finite (fadd a b) \<and> valof (fadd a b) = valof a + valof b)"

definition exact_sum :: "bool \<Rightarrow> int \<Rightarrow> int \<Rightarrow> bool \<Rightarrow> int \<Rightarrow> int \<Rightarrow> int" where
  "exact_sum s1 m1 e1 s2 m2 e2 =
     with_sign s1 (m1 * 2 ^ nat (e1 - min e1 e2)) + with_sign s2 (m2 * 2 ^ nat (e2 - min e1 e2))"

text \<open>
  A decimal literal of the sources: \<open>decimal k n\<close> is the double nearest to
  \<open>k / 10^n\<close>, as the compiler converts \<open>185.50\<close> (\<open>decimal 18550 2\<close>). The quotient is
  taken with more than 64 bits and one more bit that says whether the division left a
  remainder, so that the rounding sees on which side of a tie the value lies.
\<close>

definition decimal :: "int \<Rightarrow> nat \<Rightarrow> double" where
  "decimal k n =
     (let a = \<bar>k\<bar> * 2 ^ (64 + 4 * n);
          q = a div 10 ^ n;
          r = a mod 10 ^ n
      in round_to_double (k < 0) (2 * q + (if r = 0 then 0 else 1)) (- int (64 + 4 * n) - 1))"

subsection \<open>The 32-bit \<open>int\<close>\<close>

text \<open>
  A quantity is a 32-bit \<open>int\<close>. Signed overflow is undefined in C and C++; the model
  takes the two's-complement wrap-around of the usual targets, which is \<open>+\<close> and \<open>-\<close>
  on \<open>32 word\<close>. \<open>sint\<close> reads the signed value.
\<close>

type_synonym int32 = "32 word"

text \<open>The conversion of \<open>qty * price\<close>: every 32-bit \<open>int\<close> is a double, exactly.\<close>

definition double_of_int :: "int32 \<Rightarrow> double" where
  "double_of_int q = round_to_double (sint q < 0) \<bar>sint q\<bar> 0"

section \<open>The variant command history (command/modern/main.cpp)\<close>

subsection \<open>Receiver: Portfolio\<close>

text \<open>
  \<open>positions_\<close> is an \<open>unordered_map<string, int>\<close>, \<open>cash_\<close> a \<open>double\<close>.
  \<open>positions_[symbol]\<close> inserts the value 0 for a symbol that has no entry, then
  updates it. The lines that the four operations print are not modelled. The members
  \<open>positions_\<close>, \<open>cash_\<close>, \<open>executed_\<close> and \<open>undone_\<close> are written without their last
  character, which no name may end with here.
\<close>

record Portfolio =
  positions :: "string \<rightharpoonup> int32"
  cash :: double

definition Portfolio_init :: "double \<Rightarrow> Portfolio" where
  "Portfolio_init c = \<lparr>positions = Map.empty, cash = c\<rparr>"

definition subscript :: "(string \<rightharpoonup> int32) \<Rightarrow> string \<Rightarrow> int32" where
  "subscript m symbol = (case m symbol of None \<Rightarrow> 0 | Some q \<Rightarrow> q)"

definition buy :: "string \<Rightarrow> int32 \<Rightarrow> double \<Rightarrow> Portfolio \<Rightarrow> Portfolio" where
  "buy symbol qty price p =
     p\<lparr>positions := (positions p)(symbol \<mapsto> subscript (positions p) symbol + qty),
       cash := fsub (cash p) (fmul (double_of_int qty) price)\<rparr>"

definition sell :: "string \<Rightarrow> int32 \<Rightarrow> double \<Rightarrow> Portfolio \<Rightarrow> Portfolio" where
  "sell symbol qty price p =
     p\<lparr>positions := (positions p)(symbol \<mapsto> subscript (positions p) symbol - qty),
       cash := fadd (cash p) (fmul (double_of_int qty) price)\<rparr>"

definition reverse_buy :: "string \<Rightarrow> int32 \<Rightarrow> double \<Rightarrow> Portfolio \<Rightarrow> Portfolio" where
  "reverse_buy symbol qty price p =
     p\<lparr>positions := (positions p)(symbol \<mapsto> subscript (positions p) symbol - qty),
       cash := fadd (cash p) (fmul (double_of_int qty) price)\<rparr>"

definition reverse_sell :: "string \<Rightarrow> int32 \<Rightarrow> double \<Rightarrow> Portfolio \<Rightarrow> Portfolio" where
  "reverse_sell symbol qty price p =
     p\<lparr>positions := (positions p)(symbol \<mapsto> subscript (positions p) symbol + qty),
       cash := fsub (cash p) (fmul (double_of_int qty) price)\<rparr>"

text \<open>The quantity of a symbol as \<open>print_positions\<close> shows it: no entry reads as 0.\<close>

definition shares :: "Portfolio \<Rightarrow> string \<Rightarrow> int32" where
  "shares p symbol = subscript (positions p) symbol"

subsection \<open>Actions\<close>

datatype TradeAction =
    BuyTrade string int32 double
  | SellTrade string int32 double

fun execute_action :: "TradeAction \<Rightarrow> Portfolio \<Rightarrow> Portfolio" where
  "execute_action (BuyTrade symbol qty price) p = buy symbol qty price p"
| "execute_action (SellTrade symbol qty price) p = sell symbol qty price p"

fun undo_action :: "TradeAction \<Rightarrow> Portfolio \<Rightarrow> Portfolio" where
  "undo_action (BuyTrade symbol qty price) p = reverse_buy symbol qty price p"
| "undo_action (SellTrade symbol qty price) p = reverse_sell symbol qty price p"

subsection \<open>TradeHistory\<close>

record TradeHistory =
  executed :: "TradeAction list"
  undone :: "TradeAction list"

definition TradeHistory_init :: TradeHistory where
  "TradeHistory_init = \<lparr>executed = [], undone = []\<rparr>"

definition execute :: "TradeAction \<Rightarrow> TradeHistory \<times> Portfolio \<Rightarrow> TradeHistory \<times> Portfolio" where
  "execute action hp =
     (case hp of (h, p) \<Rightarrow>
        (h\<lparr>executed := executed h @ [action], undone := []\<rparr>, execute_action action p))"

definition undo :: "TradeHistory \<times> Portfolio \<Rightarrow> bool \<times> TradeHistory \<times> Portfolio" where
  "undo hp =
     (case hp of (h, p) \<Rightarrow>
        if executed h = [] then (False, h, p)
        else
          let action = last (executed h) in
          (True,
           h\<lparr>executed := butlast (executed h), undone := undone h @ [action]\<rparr>,
           undo_action action p))"

definition redo :: "TradeHistory \<times> Portfolio \<Rightarrow> bool \<times> TradeHistory \<times> Portfolio" where
  "redo hp =
     (case hp of (h, p) \<Rightarrow>
        if undone h = [] then (False, h, p)
        else
          let action = last (undone h) in
          (True,
           h\<lparr>executed := executed h @ [action], undone := butlast (undone h)\<rparr>,
           execute_action action p))"

subsection \<open>Descriptions and the listing\<close>

text \<open>
  What \<open>printf\<close> writes for \<open>%d\<close>, \<open>%zu\<close>, \<open>%s\<close> and \<open>%.2f\<close>. \<open>show_nat\<close> writes
  the decimal digits of a number that is not negative. \<open>%s\<close> reads a C string, which
  ends at the first NUL. \<open>%.2f\<close> rounds the exact value to two
  decimals, ties to even (glibc); a NaN is \<open>nan\<close>, or \<open>-nan\<close> when its sign bit is set.
\<close>

definition digit_char :: "int \<Rightarrow> char" where
  "digit_char n = char_of (48 + n)"

function show_nat :: "int \<Rightarrow> string" where
  "show_nat n = (if n < 10 then [digit_char n] else show_nat (n div 10) @ [digit_char (n mod 10)])"
  by pat_completeness auto
termination
  by (relation "measure nat") auto

declare show_nat.simps [simp del]

definition show_int :: "int \<Rightarrow> string" where
  "show_int i = (if i < 0 then ''-'' @ show_nat (- i) else show_nat i)"

definition c_str :: "string \<Rightarrow> string" where
  "c_str s = takeWhile (\<lambda>c. c \<noteq> CHR 0x00) s"

definition hundredths :: "int \<Rightarrow> int \<Rightarrow> int" where
  "hundredths m e =
     (if 0 \<le> e then m * 100 * 2 ^ nat e
      else
        let den = 2 ^ nat (- e);
            q = (m * 100) div den;
            r = (m * 100) mod den
        in if den < 2 * r \<or> (2 * r = den \<and> odd q) then q + 1 else q)"

definition show_2f :: "double \<Rightarrow> string" where
  "show_2f d =
     (case d of
        Finite s m e \<Rightarrow>
          (let n = hundredths m e in
           (if s then ''-'' else []) @ show_nat (n div 100) @ ''.''
             @ [digit_char (n mod 100 div 10), digit_char (n mod 10)])
      | Infinity s \<Rightarrow> (if s then ''-inf'' else ''inf'')
      | NaN s \<Rightarrow> (if s then ''-nan'' else ''nan''))"

text \<open>\<open>description\<close> formats into \<open>char buf[128]\<close>: \<open>snprintf\<close> keeps 127 characters.\<close>

fun description :: "TradeAction \<Rightarrow> string" where
  "description (BuyTrade symbol qty price) =
     take 127 (''BUY '' @ show_int (sint qty) @ '' '' @ c_str symbol @ '' @ $'' @ show_2f price)"
| "description (SellTrade symbol qty price) =
     take 127 (''SELL '' @ show_int (sint qty) @ '' '' @ c_str symbol @ '' @ $'' @ show_2f price)"

definition action_description :: "TradeAction \<Rightarrow> string" where
  "action_description action = description action"

text \<open>
  \<open>print_history\<close> is a \<open>const\<close> member that returns nothing: it writes lines to the
  standard output. The output is passed through as the list of the lines written so
  far (each \<open>puts\<close> and each \<open>printf\<close> here writes one line; the newlines are left
  out); the loop over \<open>i\<close> is \<open>print_history_loop\<close>.
\<close>

function print_history_loop :: "TradeHistory \<Rightarrow> nat \<Rightarrow> string list \<Rightarrow> string list" where
  "print_history_loop h i out =
     (if i < length (executed h)
      then print_history_loop h (i + 1)
             (out @ [''    '' @ show_nat (int i + 1) @ ''. ''
                       @ c_str (action_description (executed h ! i))])
      else out)"
  by pat_completeness auto
termination
  by (relation "measure (\<lambda>(h, i, out). length (executed h) - i)") auto

declare print_history_loop.simps [simp del]

definition print_history :: "TradeHistory \<Rightarrow> string list \<Rightarrow> string list" where
  "print_history h out =
     (let out1 = out @ [''  Trade History:''];
          out2 = print_history_loop h 0 out1
      in if executed h = [] then out2 @ [''    (empty)''] else out2)"

definition size_history :: "TradeHistory \<Rightarrow> nat" where
  "size_history h = length (executed h)"

subsection \<open>Sequences of calls\<close>

text \<open>
  A caller drives one history and one portfolio by \<open>execute\<close>, \<open>undo\<close> and \<open>redo\<close>,
  as \<open>main\<close> does; \<open>run\<close> makes the calls of a list in order, dropping the booleans.
  \<open>replay\<close> applies the forward effect of a list of actions in order.
\<close>

datatype call = Execute TradeAction | Undo | Redo

fun step :: "call \<Rightarrow> TradeHistory \<times> Portfolio \<Rightarrow> TradeHistory \<times> Portfolio" where
  "step (Execute action) hp = execute action hp"
| "step Undo hp = snd (undo hp)"
| "step Redo hp = snd (redo hp)"

fun run :: "call list \<Rightarrow> TradeHistory \<times> Portfolio \<Rightarrow> TradeHistory \<times> Portfolio" where
  "run [] hp = hp"
| "run (c # cs) hp = run cs (step c hp)"

fun replay :: "TradeAction list \<Rightarrow> Portfolio \<Rightarrow> Portfolio" where
  "replay [] p = p"
| "replay (action # actions) p = replay actions (execute_action action p)"

subsection \<open>What an action does to the cash and to the quantities\<close>

text \<open>
  \<open>cash_effect\<close> is the double that executing an action adds to the cash, and
  \<open>shares_effect\<close> the quantity it adds to a symbol. Executing is exact on a portfolio
  when that sum does not round, and undoing is exact when the sum that takes the
  effect back does not round.
\<close>

fun cash_effect :: "TradeAction \<Rightarrow> double" where
  "cash_effect (BuyTrade symbol qty price) = fneg (fmul (double_of_int qty) price)"
| "cash_effect (SellTrade symbol qty price) = fmul (double_of_int qty) price"

fun shares_effect :: "TradeAction \<Rightarrow> string \<Rightarrow> int32" where
  "shares_effect (BuyTrade symbol qty price) s = (if s = symbol then qty else 0)"
| "shares_effect (SellTrade symbol qty price) s = (if s = symbol then - qty else 0)"

definition exact_execute :: "TradeAction \<Rightarrow> Portfolio \<Rightarrow> bool" where
  "exact_execute action p = exact_add (cash p) (cash_effect action)"


text \<open>
  Two doubles are the same cash when they are the same double, or both a zero. An
  action is reversible on a portfolio when \<open>execute_action\<close> and then \<open>undo_action\<close>
  give back the cash.
\<close>

definition same_cash :: "double \<Rightarrow> double \<Rightarrow> bool" where
  "same_cash a b = (a = b \<or> (is_zero a \<and> is_zero b))"

definition reversible :: "TradeAction \<Rightarrow> Portfolio \<Rightarrow> bool" where
  "reversible action p = same_cash (cash (undo_action action (execute_action action p))) (cash p)"

text \<open>
  In a run from the portfolio \<open>p0\<close>, an \<open>undo\<close> takes back the last action of the undo
  stack; \<open>undos_reverse\<close> says that each action so taken back is reversible on the
  replay of the actions before it.
\<close>

fun undo_reverses :: "Portfolio \<Rightarrow> call \<Rightarrow> TradeHistory \<times> Portfolio \<Rightarrow> bool" where
  "undo_reverses p0 Undo hp =
     (executed (fst hp) = []
      \<or> reversible (last (executed (fst hp))) (replay (butlast (executed (fst hp))) p0))"
| "undo_reverses p0 (Execute action) hp = True"
| "undo_reverses p0 Redo hp = True"

fun undos_reverse :: "Portfolio \<Rightarrow> call list \<Rightarrow> TradeHistory \<times> Portfolio \<Rightarrow> bool" where
  "undos_reverse p0 [] hp = True"
| "undos_reverse p0 (c # cs) hp = (undo_reverses p0 c hp \<and> undos_reverse p0 cs (step c hp))"

subsection \<open>Copies of a history\<close>














section \<open>The tagged-union command history (c/command.c)\<close>

text \<open>
  The C program keeps the same portfolio and history in arrays of fixed size, with a
  count of the slots in use. No function checks an index against the size of its
  array: an access outside the array is undefined behaviour, which the model returns
  as the fault \<open>Out_of_bounds\<close>. Counts are \<open>int\<close>; they are modelled as integers, not
  as words, since a count that would overflow has indexed outside its array before.
  The lines that the functions print are not modelled.
\<close>

datatype fault = Out_of_bounds

subsection \<open>Receiver: Portfolio\<close>

definition MAX_POSITIONS :: int where
  "MAX_POSITIONS = 32"

text \<open>
  \<open>symbols\<close> is \<open>char[MAX_POSITIONS][16]\<close>: each slot holds a C string of at most 15
  characters; \<open>quantities\<close> is \<open>int[MAX_POSITIONS]\<close>.
\<close>

record Portfolio_c =
  symbols :: "string list"
  quantities :: "int32 list"
  count :: int
  cash_c :: double

definition portfolio_init :: "double \<Rightarrow> Portfolio_c" where
  "portfolio_init c =
     \<lparr>symbols = replicate (nat MAX_POSITIONS) [],
      quantities = replicate (nat MAX_POSITIONS) 0,
      count = 0,
      cash_c = c\<rparr>"

text \<open>The loop of \<open>portfolio_find\<close>, from the index \<open>i\<close>; \<open>strcmp\<close> compares C strings.\<close>

function portfolio_find_loop :: "Portfolio_c \<Rightarrow> string \<Rightarrow> int \<Rightarrow> fault + int" where
  "portfolio_find_loop p name i =
     (if i < count p then
        (if 0 \<le> i \<and> i < MAX_POSITIONS then
           (if symbols p ! nat i = c_str name then Inr i
            else portfolio_find_loop p name (i + 1))
         else Inl Out_of_bounds)
      else Inr (- 1))"
  by pat_completeness auto
termination
  by (relation "measure (\<lambda>(p, name, i). nat (count p - i))") auto

declare portfolio_find_loop.simps [simp del]

definition portfolio_find :: "Portfolio_c \<Rightarrow> string \<Rightarrow> fault + int" where
  "portfolio_find p name = portfolio_find_loop p name 0"

text \<open>
  \<open>portfolio_adjust\<close>: a symbol that is not found takes the slot \<open>count\<close>, which is
  written without a check; \<open>strncpy\<close> keeps 15 characters of the name.
\<close>

definition portfolio_adjust :: "Portfolio_c \<Rightarrow> string \<Rightarrow> int32 \<Rightarrow> double \<Rightarrow> fault + Portfolio_c" where
  "portfolio_adjust p name qty_delta cash_delta =
     (case portfolio_find p name of
        Inl f \<Rightarrow> Inl f
      | Inr idx \<Rightarrow>
          if idx < 0 then
            (if 0 \<le> count p \<and> count p < MAX_POSITIONS then
               Inr (p\<lparr>count := count p + 1,
                      symbols := (symbols p)[nat (count p) := take 15 (c_str name)],
                      quantities := (quantities p)[nat (count p) := 0 + qty_delta],
                      cash_c := fadd (cash_c p) cash_delta\<rparr>)
             else Inl Out_of_bounds)
          else
            Inr (p\<lparr>quantities := (quantities p)[nat idx := quantities p ! nat idx + qty_delta],
                   cash_c := fadd (cash_c p) cash_delta\<rparr>))"

definition portfolio_buy :: "Portfolio_c \<Rightarrow> string \<Rightarrow> int32 \<Rightarrow> double \<Rightarrow> fault + Portfolio_c" where
  "portfolio_buy p name qty pr = portfolio_adjust p name qty (fneg (fmul (double_of_int qty) pr))"

definition portfolio_sell :: "Portfolio_c \<Rightarrow> string \<Rightarrow> int32 \<Rightarrow> double \<Rightarrow> fault + Portfolio_c" where
  "portfolio_sell p name qty pr = portfolio_adjust p name (- qty) (fmul (double_of_int qty) pr)"

definition portfolio_reverse_buy :: "Portfolio_c \<Rightarrow> string \<Rightarrow> int32 \<Rightarrow> double \<Rightarrow> fault + Portfolio_c" where
  "portfolio_reverse_buy p name qty pr =
     portfolio_adjust p name (- qty) (fmul (double_of_int qty) pr)"

definition portfolio_reverse_sell :: "Portfolio_c \<Rightarrow> string \<Rightarrow> int32 \<Rightarrow> double \<Rightarrow> fault + Portfolio_c" where
  "portfolio_reverse_sell p name qty pr =
     portfolio_adjust p name qty (fneg (fmul (double_of_int qty) pr))"

subsection \<open>Tagged union commands\<close>

datatype TradeCommandType = CMD_BUY | CMD_SELL

record TradeCommand =
  type :: TradeCommandType
  symbol :: string
  quantity :: int32
  price :: double

definition cmd_buy :: "string \<Rightarrow> int32 \<Rightarrow> double \<Rightarrow> TradeCommand" where
  "cmd_buy name qty pr =
     \<lparr>type = CMD_BUY, symbol = take 15 (c_str name), quantity = qty, price = pr\<rparr>"

definition cmd_sell :: "string \<Rightarrow> int32 \<Rightarrow> double \<Rightarrow> TradeCommand" where
  "cmd_sell name qty pr =
     \<lparr>type = CMD_SELL, symbol = take 15 (c_str name), quantity = qty, price = pr\<rparr>"

definition cmd_execute :: "TradeCommand \<Rightarrow> Portfolio_c \<Rightarrow> fault + Portfolio_c" where
  "cmd_execute cmd p =
     (case type cmd of
        CMD_BUY \<Rightarrow> portfolio_buy p (symbol cmd) (quantity cmd) (price cmd)
      | CMD_SELL \<Rightarrow> portfolio_sell p (symbol cmd) (quantity cmd) (price cmd))"

definition cmd_undo :: "TradeCommand \<Rightarrow> Portfolio_c \<Rightarrow> fault + Portfolio_c" where
  "cmd_undo cmd p =
     (case type cmd of
        CMD_BUY \<Rightarrow> portfolio_reverse_buy p (symbol cmd) (quantity cmd) (price cmd)
      | CMD_SELL \<Rightarrow> portfolio_reverse_sell p (symbol cmd) (quantity cmd) (price cmd))"

subsection \<open>Command history: plain arrays of values\<close>

definition MAX_HISTORY :: int where
  "MAX_HISTORY = 64"

text \<open>
  \<open>executed\<close> and \<open>undone\<close> are \<open>TradeCommand[MAX_HISTORY]\<close>. \<open>history_init\<close> sets the
  two counts and leaves the arrays as they are.
\<close>

record TradeHistory_c =
  executed_c :: "TradeCommand list"
  exec_count :: int
  undone_c :: "TradeCommand list"
  undo_count :: int

text \<open>A history of static storage, all of whose bytes are zero.\<close>

definition zero_history :: TradeHistory_c where
  "zero_history =
     \<lparr>executed_c = replicate (nat MAX_HISTORY) \<lparr>type = CMD_BUY, symbol = [], quantity = 0, price = Finite False 0 (- 1074)\<rparr>,
      exec_count = 0,
      undone_c = replicate (nat MAX_HISTORY) \<lparr>type = CMD_BUY, symbol = [], quantity = 0, price = Finite False 0 (- 1074)\<rparr>,
      undo_count = 0\<rparr>"

definition history_init :: "TradeHistory_c \<Rightarrow> TradeHistory_c" where
  "history_init h = h\<lparr>exec_count := 0, undo_count := 0\<rparr>"

definition history_execute ::
    "TradeHistory_c \<Rightarrow> TradeCommand \<Rightarrow> Portfolio_c \<Rightarrow> fault + (TradeHistory_c \<times> Portfolio_c)" where
  "history_execute h cmd p =
     (case cmd_execute cmd p of
        Inl f \<Rightarrow> Inl f
      | Inr p' \<Rightarrow>
          if 0 \<le> exec_count h \<and> exec_count h < MAX_HISTORY then
            Inr (h\<lparr>executed_c := (executed_c h)[nat (exec_count h) := cmd],
                   exec_count := exec_count h + 1,
                   undo_count := 0\<rparr>, p')
          else Inl Out_of_bounds)"

definition history_undo ::
    "TradeHistory_c \<Rightarrow> Portfolio_c \<Rightarrow> fault + (int \<times> TradeHistory_c \<times> Portfolio_c)" where
  "history_undo h p =
     (if exec_count h = 0 then Inr (0, h, p)
      else if 0 \<le> exec_count h - 1 \<and> exec_count h - 1 < MAX_HISTORY then
        (let cmd = executed_c h ! nat (exec_count h - 1) in
         case cmd_undo cmd p of
           Inl f \<Rightarrow> Inl f
         | Inr p' \<Rightarrow>
             if 0 \<le> undo_count h \<and> undo_count h < MAX_HISTORY then
               Inr (1, h\<lparr>exec_count := exec_count h - 1,
                         undone_c := (undone_c h)[nat (undo_count h) := cmd],
                         undo_count := undo_count h + 1\<rparr>, p')
             else Inl Out_of_bounds)
      else Inl Out_of_bounds)"

definition history_redo ::
    "TradeHistory_c \<Rightarrow> Portfolio_c \<Rightarrow> fault + (int \<times> TradeHistory_c \<times> Portfolio_c)" where
  "history_redo h p =
     (if undo_count h = 0 then Inr (0, h, p)
      else if 0 \<le> undo_count h - 1 \<and> undo_count h - 1 < MAX_HISTORY then
        (let cmd = undone_c h ! nat (undo_count h - 1) in
         case cmd_execute cmd p of
           Inl f \<Rightarrow> Inl f
         | Inr p' \<Rightarrow>
             if 0 \<le> exec_count h \<and> exec_count h < MAX_HISTORY then
               Inr (1, h\<lparr>undo_count := undo_count h - 1,
                         executed_c := (executed_c h)[nat (exec_count h) := cmd],
                         exec_count := exec_count h + 1\<rparr>, p')
             else Inl Out_of_bounds)
      else Inl Out_of_bounds)"



subsection \<open>The listing of the C history\<close>





subsection \<open>Sequences of calls on the C history\<close>

text \<open>
  A caller drives one history and one portfolio, as \<open>main\<close> does; the first fault ends
  the run. \<open>replay_c\<close> executes a list of commands in order.
\<close>

datatype call_c = Execute_c TradeCommand | Undo_c | Redo_c

fun step_c ::
    "call_c \<Rightarrow> TradeHistory_c \<times> Portfolio_c \<Rightarrow> fault + (TradeHistory_c \<times> Portfolio_c)" where
  "step_c (Execute_c cmd) hp = history_execute (fst hp) cmd (snd hp)"
| "step_c Undo_c hp =
     (case history_undo (fst hp) (snd hp) of Inl f \<Rightarrow> Inl f | Inr r \<Rightarrow> Inr (snd r))"
| "step_c Redo_c hp =
     (case history_redo (fst hp) (snd hp) of Inl f \<Rightarrow> Inl f | Inr r \<Rightarrow> Inr (snd r))"

fun run_c ::
    "call_c list \<Rightarrow> TradeHistory_c \<times> Portfolio_c \<Rightarrow> fault + (TradeHistory_c \<times> Portfolio_c)" where
  "run_c [] hp = Inr hp"
| "run_c (c # cs) hp =
     (case step_c c hp of Inl f \<Rightarrow> Inl f | Inr hp' \<Rightarrow> run_c cs hp')"

fun replay_c :: "TradeCommand list \<Rightarrow> Portfolio_c \<Rightarrow> fault + Portfolio_c" where
  "replay_c [] p = Inr p"
| "replay_c (cmd # cmds) p =
     (case cmd_execute cmd p of Inl f \<Rightarrow> Inl f | Inr p' \<Rightarrow> replay_c cmds p')"

subsection \<open>The stacks and the positions that the arrays hold\<close>

text \<open>
  The first \<open>exec_count\<close> commands of \<open>executed\<close> are the undo stack and the first
  \<open>undo_count\<close> commands of \<open>undone\<close> the redo stack, as \<open>history_print\<close> and
  \<open>history_redo\<close> read them. The first \<open>count\<close> slots of a portfolio are its
  positions: the quantity of a symbol is that of the first slot that holds the symbol,
  as \<open>portfolio_find\<close> reads it, and 0 when no slot does.
\<close>

definition undo_stack_c :: "TradeHistory_c \<Rightarrow> TradeCommand list" where
  "undo_stack_c h = take (nat (exec_count h)) (executed_c h)"

definition redo_stack_c :: "TradeHistory_c \<Rightarrow> TradeCommand list" where
  "redo_stack_c h = take (nat (undo_count h)) (undone_c h)"

definition positions_c :: "Portfolio_c \<Rightarrow> string \<rightharpoonup> int32" where
  "positions_c p = map_of (zip (take (nat (count p)) (symbols p)) (quantities p))"

definition shares_c :: "Portfolio_c \<Rightarrow> string \<Rightarrow> int32" where
  "shares_c p name = subscript (positions_c p) (c_str name)"

text \<open>
  What the declarations say of the values: a \<open>char[16]\<close> holds a C string of at most
  15 characters; the arrays of a portfolio have \<open>MAX_POSITIONS\<close> slots, of which
  \<open>count\<close> are used; those of a history have \<open>MAX_HISTORY\<close>. \<open>distinct_symbols\<close> says
  that no two used slots hold the same symbol.
\<close>

definition is_symbol :: "string \<Rightarrow> bool" where
  "is_symbol s = (c_str s = s \<and> length s \<le> 15)"

definition wf_portfolio :: "Portfolio_c \<Rightarrow> bool" where
  "wf_portfolio p =
     (0 \<le> count p \<and> count p \<le> MAX_POSITIONS
      \<and> length (symbols p) = nat MAX_POSITIONS \<and> length (quantities p) = nat MAX_POSITIONS)"

definition distinct_symbols :: "Portfolio_c \<Rightarrow> bool" where
  "distinct_symbols p = distinct (take (nat (count p)) (symbols p))"

definition wf_history :: "TradeHistory_c \<Rightarrow> bool" where
  "wf_history h =
     (0 \<le> exec_count h \<and> exec_count h \<le> MAX_HISTORY
      \<and> 0 \<le> undo_count h \<and> undo_count h \<le> MAX_HISTORY
      \<and> length (executed_c h) = nat MAX_HISTORY \<and> length (undone_c h) = nat MAX_HISTORY)"

text \<open>
  \<open>cash_effect_c\<close> is the double that \<open>cmd_execute\<close> passes to \<open>portfolio_adjust\<close> as
  \<open>cash_delta\<close>, and \<open>shares_effect_c\<close> the quantity it passes as \<open>qty_delta\<close>.
\<close>

definition cash_effect_c :: "TradeCommand \<Rightarrow> double" where
  "cash_effect_c cmd =
     (case type cmd of
        CMD_BUY \<Rightarrow> fneg (fmul (double_of_int (quantity cmd)) (price cmd))
      | CMD_SELL \<Rightarrow> fmul (double_of_int (quantity cmd)) (price cmd))"

definition shares_effect_c :: "TradeCommand \<Rightarrow> int32" where
  "shares_effect_c cmd = (case type cmd of CMD_BUY \<Rightarrow> quantity cmd | CMD_SELL \<Rightarrow> - quantity cmd)"

text \<open>
  A command is reversible on a portfolio when \<open>cmd_execute\<close> and then \<open>cmd_undo\<close>
  return and give back the cash; \<open>undos_reverse_c\<close> says, of a run from the portfolio
  \<open>p0\<close>, that each command that a \<open>history_undo\<close> takes back is reversible on the
  replay of the commands before it.
\<close>

definition reversible_c :: "TradeCommand \<Rightarrow> Portfolio_c \<Rightarrow> bool" where
  "reversible_c cmd p =
     (case cmd_execute cmd p of
        Inl f \<Rightarrow> False
      | Inr p1 \<Rightarrow>
          (case cmd_undo cmd p1 of
             Inl f \<Rightarrow> False
           | Inr p2 \<Rightarrow> same_cash (cash_c p2) (cash_c p)))"

fun undo_reverses_c :: "Portfolio_c \<Rightarrow> call_c \<Rightarrow> TradeHistory_c \<times> Portfolio_c \<Rightarrow> bool" where
  "undo_reverses_c p0 Undo_c hp =
     (exec_count (fst hp) = 0
      \<or> (case replay_c (butlast (undo_stack_c (fst hp))) p0 of
            Inl f \<Rightarrow> False
          | Inr r \<Rightarrow> reversible_c (last (undo_stack_c (fst hp))) r))"
| "undo_reverses_c p0 (Execute_c cmd) hp = True"
| "undo_reverses_c p0 Redo_c hp = True"

fun undos_reverse_c :: "Portfolio_c \<Rightarrow> call_c list \<Rightarrow> TradeHistory_c \<times> Portfolio_c \<Rightarrow> bool" where
  "undos_reverse_c p0 [] hp = True"
| "undos_reverse_c p0 (c # cs) hp =
     (undo_reverses_c p0 c hp
      \<and> (case step_c c hp of Inl f \<Rightarrow> True | Inr hp' \<Rightarrow> undos_reverse_c p0 cs hp'))"

text \<open>
  A portfolio \<open>r\<close> tracks a portfolio \<open>p\<close> when both are within their bounds, without a
  symbol in two slots, and \<open>r\<close> holds the quantities of \<open>p\<close> in slots for symbols that
  \<open>p\<close> has a slot for. The symbols of a history fit when those of the commands on
  its two stacks do.
\<close>

definition tracks :: "Portfolio_c \<Rightarrow> Portfolio_c \<Rightarrow> bool" where
  "tracks r p =
     (wf_portfolio r \<and> distinct_symbols r \<and> wf_portfolio p \<and> distinct_symbols p
      \<and> dom (positions_c r) \<subseteq> dom (positions_c p)
      \<and> (\<forall>s. subscript (positions_c r) s = subscript (positions_c p) s))"

definition symbols_fit :: "TradeHistory_c \<Rightarrow> bool" where
  "symbols_fit h = list_all (\<lambda>cmd. is_symbol (symbol cmd)) (undo_stack_c h @ redo_stack_c h)"

text \<open>The symbols of the commands that a list of calls executes.\<close>

fun executes_symbols :: "call_c list \<Rightarrow> bool" where
  "executes_symbols [] = True"
| "executes_symbols (Execute_c cmd # cs) = (is_symbol (symbol cmd) \<and> executes_symbols cs)"
| "executes_symbols (Undo_c # cs) = executes_symbols cs"
| "executes_symbols (Redo_c # cs) = executes_symbols cs"

subsection \<open>Copies of a C history\<close>





section \<open>Rounding to a double\<close>

lemma is_nan_simps [simp]:
  "is_nan (Finite s m e) = False" "is_nan (Infinity s) = False" "is_nan (NaN s) = True"
  by (simp_all add: is_nan_def)





text \<open>The two branches of the rounding, with the exponent named.\<close>

lemma round_to_double_no_shift:
  assumes "0 < M" "e' = max (E + bitlen M - 53) (- 1074)" "e' \<le> E"
  shows "round_to_double s M E =
           (if 971 < e' then Infinity s else Finite s (M * 2 ^ nat (E - e')) e')"
proof -
  have a: "\<not> M \<le> 0" "max (E + bitlen M - 53) (- 1074) \<le> E"
    using assms by auto
  show ?thesis
    unfolding round_to_double_def Let_def assms(2)
    by (simp only: a if_False if_True)
qed

lemma round_to_double_shift:
  assumes "0 < M" "e' = max (E + bitlen M - 53) (- 1074)" "E < e'"
    "q = M div 2 ^ nat (e' - E)" "r = M mod 2 ^ nat (e' - E)"
    "q' = (if 2 ^ (nat (e' - E) - 1) < r \<or> (r = 2 ^ (nat (e' - E) - 1) \<and> odd q) then q + 1 else q)"
  shows "round_to_double s M E =
           (if q' = 2 ^ 53 then (if 971 < e' + 1 then Infinity s else Finite s (2 ^ 52) (e' + 1))
            else if 971 < e' then Infinity s
            else Finite s q' e')"
proof -
  have a: "\<not> M \<le> 0" "\<not> max (E + bitlen M - 53) (- 1074) \<le> E"
    using assms(1,2,3) by auto
  show ?thesis
    unfolding round_to_double_def Let_def assms(6) assms(4) assms(5) assms(2)
    by (simp only: a if_False)
qed




lemma double_exponent:
  assumes "is_double (Finite s m e)" "0 < m"
  shows "max (e + bitlen m - 53) (- 1074) = e"
proof (cases "2 ^ 52 \<le> m")
  case True
  have "bitlen m \<le> 53"
    using assms by (simp add: bitlen_le_iff_power is_double_def)
  moreover have "53 \<le> bitlen m"
    using True by (simp add: bitlen_ge_iff_power)
  ultimately show ?thesis
    using assms by (simp add: is_double_def)
next
  case False
  then have "bitlen m \<le> 52"
    by (simp add: bitlen_le_iff_power)
  with False assms show ?thesis
    by (simp add: is_double_def)
qed

lemma round_to_double_scaled_up:
  assumes d: "is_double (Finite s m e)" and m: "0 < m"
  shows "round_to_double s (m * 2 ^ k) (e - int k) = Finite s m e"
proof (cases "k = 0")
  case True
  have M: "0 < m" by fact
  have e': "e = max (e + bitlen m - 53) (- 1074)"
    using double_exponent [OF d m] by simp
  show ?thesis
    using round_to_double_no_shift [OF M e', of s] d True
    by (simp add: is_double_def)
next
  case False
  have M: "0 < m * 2 ^ k" using m by simp
  have e': "e = max (e - int k + bitlen (m * 2 ^ k) - 53) (- 1074)"
    using double_exponent [OF d m] m by simp
  have gt: "e - int k < e" using False by simp
  have sh: "nat (e - (e - int k)) = k" by simp
  have q: "m = m * 2 ^ k div 2 ^ nat (e - (e - int k))"
    unfolding sh by simp
  have r: "0 = m * 2 ^ k mod 2 ^ nat (e - (e - int k))"
    unfolding sh by simp
  have q': "m = (if 2 ^ (nat (e - (e - int k)) - 1) < (0::int) \<or>
                    (0 = (2::int) ^ (nat (e - (e - int k)) - 1) \<and> odd m) then m + 1 else m)"
    by simp
  show ?thesis
    using round_to_double_shift [OF M e' gt q r q', of s] d
    by (simp add: is_double_def)
qed

lemma round_to_double_scaled_down:
  assumes d: "is_double (Finite s m e)" and M: "0 < M" and m: "m = M * 2 ^ k"
  shows "round_to_double s M (e + int k) = Finite s m e"
proof -
  have m0: "0 < m" using M m by simp
  have e': "e = max (e + int k + bitlen M - 53) (- 1074)"
    using double_exponent [OF d m0] M unfolding m by (simp add: algebra_simps)
  have le: "e \<le> e + int k" by simp
  show ?thesis
    using round_to_double_no_shift [OF M e' le, of s] d m
    by (simp add: is_double_def)
qed

lemma two_powi_add: "(2::rat) powi a * 2 powi b = 2 powi (a + b)"
  by (simp add: power_int_add)

lemma round_to_double_exact:
  assumes d: "is_double (Finite s m e)" and m: "0 < m" and M: "0 < M"
    and eq: "of_int M * 2 powi E = (of_int m * 2 powi e :: rat)"
  shows "round_to_double s M E = Finite s m e"
proof (cases "E \<le> e")
  case True
  define k where "k = nat (e - E)"
  have E: "E = e - int k" using True by (simp add: k_def)
  have "of_int M * (2 powi E * 2 powi (- E)) = (of_int m * (2 powi e * 2 powi (- E)) :: rat)"
    using eq by (simp add: mult.assoc [symmetric])
  then have "(of_int M :: rat) = of_int m * 2 powi (int k)"
    unfolding two_powi_add using True by (simp add: k_def)
  then have "(of_int M :: rat) = of_int (m * 2 ^ k)" by simp
  then have "M = m * 2 ^ k" by (simp only: of_int_eq_iff)
  then show ?thesis
    using round_to_double_scaled_up [OF d m, of k] E by simp
next
  case False
  define k where "k = nat (E - e)"
  have E: "E = e + int k" using False by (simp add: k_def)
  have "of_int M * (2 powi E * 2 powi (- e)) = (of_int m * (2 powi e * 2 powi (- e)) :: rat)"
    using eq by (simp add: mult.assoc [symmetric])
  then have "(of_int m :: rat) = of_int M * 2 powi (int k)"
    unfolding two_powi_add using False by (simp add: k_def)
  then have "(of_int m :: rat) = of_int (M * 2 ^ k)" by simp
  then have "m = M * 2 ^ k" by (simp only: of_int_eq_iff)
  then show ?thesis
    using round_to_double_scaled_down [OF d M, of k] E by simp
qed

lemma valof_Finite: "valof (Finite s m e) = of_int (with_sign s m) * 2 powi e"
  by (simp add: valof_def with_sign_def)

lemma scaled_value:
  assumes "e \<le> e1"
  shows "(of_int (with_sign s (m * 2 ^ nat (e1 - e))) :: rat) * 2 powi e = of_int (with_sign s m) * 2 powi e1"
proof -
  have "(2::rat) ^ nat (e1 - e) * 2 powi e = 2 powi (e1 - e) * 2 powi e"
    using assms by (simp add: power_int_nonneg_exp)
  also have "\<dots> = 2 powi e1"
    unfolding two_powi_add by simp
  finally have "(2::rat) ^ nat (e1 - e) * 2 powi e = 2 powi e1" .
  then have "of_int m * ((2::rat) ^ nat (e1 - e) * 2 powi e) = of_int m * 2 powi e1" 
    by simp
  then show ?thesis
    by (simp add: with_sign_def mult.assoc)
qed

text \<open>The exact sum that \<open>fadd\<close> rounds.\<close>

lemma exact_sum_value:
  "(of_int (exact_sum s1 m1 e1 s2 m2 e2) :: rat) * 2 powi (min e1 e2)
     = valof (Finite s1 m1 e1) + valof (Finite s2 m2 e2)"
  by (simp add: exact_sum_def valof_Finite distrib_right scaled_value)

lemma fadd_Finite:
  "fadd (Finite s1 m1 e1) (Finite s2 m2 e2) =
     (if exact_sum s1 m1 e1 s2 m2 e2 = 0 then Finite (s1 \<and> s2) 0 (- 1074)
      else round_to_double (exact_sum s1 m1 e1 s2 m2 e2 < 0) \<bar>exact_sum s1 m1 e1 s2 m2 e2\<bar> (min e1 e2))"
  by (simp add: exact_sum_def Let_def)


lemma fadd_finite_operands:
  assumes "is_finite (fadd a b)"
  obtains s1 m1 e1 s2 m2 e2 where "a = Finite s1 m1 e1" "b = Finite s2 m2 e2"
  using assms by (cases a; cases b) (auto simp: is_finite_def split: if_splits)

lemma is_finite_not_nan: "is_finite d \<Longrightarrow> \<not> is_nan d"
  by (cases d) (simp_all add: is_finite_def is_nan_def)

lemma is_finite_Finite: "is_finite d \<longleftrightarrow> (\<exists>s m e. d = Finite s m e)"
  by (cases d) (simp_all add: is_finite_def)

lemma valof_fneg: "valof (fneg d) = - valof d"
  by (cases d) (simp_all add: valof_def)

lemma times_two_powi_neg: "((of_int v :: rat) * 2 powi e < 0) = (v < 0)"
proof -
  have "((of_int v :: rat) * 2 powi e < 0 * 2 powi e) = ((of_int v :: rat) < 0)"
    by (rule mult_less_cancel_right_pos) simp
  then show ?thesis by simp
qed

lemma fadd_round_trip:
  assumes c: "is_double c" and ex: "exact_add c t"
  shows "double_eq (fadd (fadd c t) (fneg t)) c"
proof -
  from ex have fin: "is_finite (fadd c t)" and val: "valof (fadd c t) = valof c + valof t"
    by (simp_all add: exact_add_def)
  from fin obtain sc mc ec st mt et where ct: "c = Finite sc mc ec" "t = Finite st mt et"
    by (rule fadd_finite_operands)
  from fin obtain sy my ey where y: "fadd c t = Finite sy my ey"
    by (auto simp: is_finite_Finite)
  define v where "v = exact_sum sy my ey (\<not> st) mt et"
  define e where "e = min ey et"
  have "(of_int v :: rat) * 2 powi e = valof (Finite sy my ey) + valof (fneg t)"
    unfolding v_def e_def ct by (simp add: exact_sum_value)
  also have "\<dots> = valof c"
    using val by (simp add: y valof_fneg)
  finally have veq: "(of_int v :: rat) * 2 powi e = of_int (with_sign sc mc) * 2 powi ec"
    by (simp add: ct valof_Finite)
  have res: "fadd (fadd c t) (fneg t) =
      (if v = 0 then Finite (sy \<and> \<not> st) 0 (- 1074) else round_to_double (v < 0) \<bar>v\<bar> e)"
  proof -
    have "fadd (fadd c t) (fneg t) = fadd (Finite sy my ey) (Finite (\<not> st) mt et)"
      unfolding y by (simp add: ct)
    then show ?thesis
      by (simp only: fadd_Finite v_def e_def)
  qed
  have mc0: "0 \<le> mc" using c by (simp add: ct is_double_def)
  show ?thesis
  proof (cases "mc = 0")
    case True
    then have "(of_int v :: rat) * 2 powi e = 0" using veq by (simp add: with_sign_def)
    then have "v = 0" by simp
    moreover have "ec = - 1074" using c True by (simp add: ct is_double_def)
    ultimately show ?thesis
      unfolding res using True by (auto simp: ct double_eq_def is_zero_def)
  next
    case False
    with mc0 have mpos: "0 < mc" by simp
    have sgn: "(v < 0) = sc"
    proof -
      have "(v < 0) = ((of_int v :: rat) * 2 powi e < 0)"
        by (simp only: times_two_powi_neg)
      also have "\<dots> = ((of_int (with_sign sc mc) :: rat) * 2 powi ec < 0)"
        by (simp only: veq)
      also have "\<dots> = (with_sign sc mc < 0)"
        by (simp only: times_two_powi_neg)
      also have "\<dots> = sc" using mpos by (simp add: with_sign_def)
      finally show ?thesis .
    qed
    have "\<bar>(of_int v :: rat) * 2 powi e\<bar> = \<bar>of_int (with_sign sc mc) * 2 powi ec\<bar>"
      by (simp only: veq)
    then have aeq: "(of_int \<bar>v\<bar> :: rat) * 2 powi e = of_int mc * 2 powi ec"
      using mpos by (simp add: abs_mult with_sign_def)
    have vpos: "0 < \<bar>v\<bar>"
    proof -
      have "(of_int mc :: rat) * 2 powi ec \<noteq> 0" using mpos by simp
      with aeq have "(of_int \<bar>v\<bar> :: rat) \<noteq> 0" by auto
      then show ?thesis by simp
    qed
    have "round_to_double sc \<bar>v\<bar> e = Finite sc mc ec"
      using c mpos vpos aeq unfolding ct by (rule round_to_double_exact)
    with vpos show ?thesis
      unfolding res by (simp add: sgn ct double_eq_def is_nan_def)
  qed
qed

lemma double_eq_refl: "\<not> is_nan d \<Longrightarrow> double_eq d d"
  by (simp add: double_eq_def)

lemma double_eq_sym: "double_eq a b \<Longrightarrow> double_eq b a"
  by (auto simp: double_eq_def)

lemma double_eq_trans: "double_eq a b \<Longrightarrow> double_eq b c \<Longrightarrow> double_eq a c"
  by (auto simp: double_eq_def)

lemma double_eq_valof: "double_eq a b \<Longrightarrow> valof a = valof b"
  by (auto simp: double_eq_def is_zero_def valof_def)

lemma double_eq_finite: "double_eq a b \<Longrightarrow> is_finite a = is_finite b"
  by (auto simp: double_eq_def is_zero_def is_finite_def)

lemma double_eq_fadd:
  assumes "double_eq a b" "is_finite (fadd a t)"
  shows "double_eq (fadd a t) (fadd b t)"
proof (cases "a = b")
  case True
  with assms(2) show ?thesis
    by (auto simp: double_eq_def dest: is_finite_not_nan)
next
  case False
  with assms(1) obtain s s' where ab: "a = Finite s 0 (- 1074)" "b = Finite s' 0 (- 1074)"
    by (auto simp: double_eq_def is_zero_def)
  from assms(2) obtain st mt et where t: "t = Finite st mt et"
    by (auto elim: fadd_finite_operands)
  have v: "exact_sum s 0 (- 1074) st mt et = exact_sum s' 0 (- 1074) st mt et"
    by (simp add: exact_sum_def with_sign_def)
  show ?thesis
    using assms(2) unfolding ab t fadd_Finite v
    by (auto simp: double_eq_def is_zero_def dest: is_finite_not_nan)
qed

lemma exact_add_double_eq:
  assumes "double_eq a b" "exact_add a t"
  shows "exact_add b t"
proof -
  from assms(2) have fin: "is_finite (fadd a t)" by (simp add: exact_add_def)
  have eq: "double_eq (fadd a t) (fadd b t)" using assms(1) fin by (rule double_eq_fadd)
  show ?thesis
    using assms(2) double_eq_valof [OF eq] double_eq_finite [OF eq] double_eq_valof [OF assms(1)]
    by (simp add: exact_add_def)
qed

lemma fneg_fneg: "fneg (fneg d) = d"
  by (cases d) simp_all

lemma is_nan_fneg: "is_nan (fneg d) = is_nan d"
  by (cases d) (simp_all add: is_nan_def)

lemma fsub_fadd: "\<not> is_nan y \<Longrightarrow> fsub x y = fadd x (fneg y)"
  by (cases x) (simp_all add: fsub_def is_nan_def)


section \<open>The variant history\<close>

subsection \<open>The cash and the quantities after an action\<close>

text \<open>
  The cash after an action is the cash before plus the \<open>cash_effect\<close>, unless that
  is a NaN: then a subtraction keeps its sign where the sum of the negation turns it.
\<close>

lemma cash_execute_action:
  "\<not> is_nan (cash_effect a) \<Longrightarrow> cash (execute_action a p) = fadd (cash p) (cash_effect a)"
  by (cases a) (simp_all add: buy_def sell_def fsub_fadd is_nan_fneg)

lemma cash_undo_action:
  "\<not> is_nan (cash_effect a) \<Longrightarrow> cash (undo_action a p) = fadd (cash p) (fneg (cash_effect a))"
  by (cases a) (simp_all add: reverse_buy_def reverse_sell_def fsub_fadd fneg_fneg is_nan_fneg)

lemma exact_add_not_nan: "exact_add c t \<Longrightarrow> \<not> is_nan t"
  by (cases c; cases t) (simp_all add: exact_add_def is_finite_def is_nan_def)

lemma exact_execute_not_nan: "exact_execute a p \<Longrightarrow> \<not> is_nan (cash_effect a)"
  unfolding exact_execute_def by (rule exact_add_not_nan)

text \<open>The quantities: an action moves one symbol, by a wrapping sum.\<close>

lemma shares_execute_action: "shares (execute_action a p) s = shares p s + shares_effect a s"
  by (cases a) (simp_all add: shares_def subscript_def buy_def sell_def)

lemma shares_undo_action: "shares (undo_action a p) s = shares p s - shares_effect a s"
  by (cases a) (simp_all add: shares_def subscript_def reverse_buy_def reverse_sell_def)


lemma replay_append: "replay (xs @ ys) p = replay ys (replay xs p)"
  by (induction xs arbitrary: p) simp_all


text \<open>Two doubles that are the same, or both a zero.\<close>

lemma same_cash_refl: "same_cash a a"
  by (simp add: same_cash_def)

lemma same_cash_sym: "same_cash a b \<Longrightarrow> same_cash b a"
  by (auto simp: same_cash_def)

lemma same_cash_trans: "same_cash a b \<Longrightarrow> same_cash b c \<Longrightarrow> same_cash a c"
  by (auto simp: same_cash_def)

lemma double_eq_same_cash: "double_eq a b \<Longrightarrow> same_cash a b"
  by (simp add: double_eq_def same_cash_def)

lemma same_cash_fadd:
  assumes "same_cash a b"
  shows "same_cash (fadd a t) (fadd b t)"
proof (cases "a = b")
  case True
  then show ?thesis by (simp add: same_cash_def)
next
  case False
  with assms obtain s s' where ab: "a = Finite s 0 (- 1074)" "b = Finite s' 0 (- 1074)"
    by (auto simp: same_cash_def is_zero_def)
  show ?thesis
  proof (cases t)
    case (Finite st mt et)
    have v: "exact_sum s 0 (- 1074) st mt et = exact_sum s' 0 (- 1074) st mt et"
      by (simp add: exact_sum_def with_sign_def)
    show ?thesis
      unfolding ab Finite fadd_Finite v by (simp add: same_cash_def is_zero_def)
  next
    case (Infinity st)
    then show ?thesis by (simp add: ab same_cash_def)
  next
    case (NaN st)
    then show ?thesis by (simp add: ab same_cash_def)
  qed
qed

lemma same_cash_fsub:
  assumes "same_cash a b"
  shows "same_cash (fsub a t) (fsub b t)"
proof (cases "a = b")
  case True
  then show ?thesis by (simp add: same_cash_def)
next
  case False
  with assms have n: "\<not> is_nan a" "\<not> is_nan b"
    by (auto simp: same_cash_def is_zero_def)
  show ?thesis
  proof (cases "is_nan t")
    case True
    with n show ?thesis by (simp add: fsub_def same_cash_def)
  next
    case False
    with assms show ?thesis by (simp add: fsub_fadd same_cash_fadd)
  qed
qed

lemma same_cash_execute_action:
  "same_cash (cash p) (cash q) \<Longrightarrow>
     same_cash (cash (execute_action a p)) (cash (execute_action a q))"
  by (cases a) (simp_all add: buy_def sell_def same_cash_fadd same_cash_fsub)

lemma same_cash_undo_action:
  "same_cash (cash p) (cash q) \<Longrightarrow>
     same_cash (cash (undo_action a p)) (cash (undo_action a q))"
  by (cases a) (simp_all add: reverse_buy_def reverse_sell_def same_cash_fadd same_cash_fsub)

text \<open>An action whose cash update does not round is reversed by its undo.\<close>

lemma exact_reversible:
  assumes "is_double (cash p)" "exact_execute a p"
  shows "reversible a p"
proof -
  from assms(2) have n: "\<not> is_nan (cash_effect a)" by (rule exact_execute_not_nan)
  have "double_eq (fadd (fadd (cash p) (cash_effect a)) (fneg (cash_effect a))) (cash p)"
    using assms unfolding exact_execute_def by (rule fadd_round_trip)
  then show ?thesis
    by (simp add: reversible_def cash_undo_action [OF n] cash_execute_action [OF n]
        double_eq_same_cash)
qed


subsection \<open>The replay of the undo stack\<close>

text \<open>The invariant of a run: the cash is the cash of the replay of the undo stack.\<close>

lemma cash_step:
  assumes "same_cash (cash p) (cash (replay (executed h) p0))" "undo_reverses p0 c (h, p)"
  shows "same_cash (cash (snd (step c (h, p)))) (cash (replay (executed (fst (step c (h, p)))) p0))"
proof (cases c)
  case (Execute a)
  with assms(1) show ?thesis
    by (simp add: execute_def replay_append same_cash_execute_action)
next
  case Undo
  show ?thesis
  proof (cases "executed h = []")
    case True
    with assms(1) Undo show ?thesis by (simp add: undo_def)
  next
    case False
    define a where "a = last (executed h)"
    define u where "u = butlast (executed h)"
    have U: "executed h = u @ [a]" using False by (simp add: a_def u_def)
    from assms(1) have "same_cash (cash p) (cash (execute_action a (replay u p0)))"
      by (simp add: U replay_append)
    then have "same_cash (cash (undo_action a p))
                 (cash (undo_action a (execute_action a (replay u p0))))"
      by (rule same_cash_undo_action)
    moreover from assms(2) Undo False have "reversible a (replay u p0)"
      by (simp add: a_def u_def)
    ultimately have "same_cash (cash (undo_action a p)) (cash (replay u p0))"
      unfolding reversible_def by (rule same_cash_trans)
    with False Undo show ?thesis
      by (simp add: undo_def Let_def a_def [symmetric] u_def [symmetric])
  qed
next
  case Redo
  with assms(1) show ?thesis
    by (simp add: redo_def Let_def replay_append same_cash_execute_action)
qed

lemma cash_run:
  "same_cash (cash (snd hp)) (cash (replay (executed (fst hp)) p0)) \<Longrightarrow>
   undos_reverse p0 cs hp \<Longrightarrow>
   same_cash (cash (snd (run cs hp))) (cash (replay (executed (fst (run cs hp))) p0))"
proof (induction cs arbitrary: hp)
  case Nil
  then show ?case by simp
next
  case (Cons c cs)
  obtain h p where hp: "hp = (h, p)" by (cases hp)
  from Cons.prems have "same_cash (cash (snd (step c hp)))
      (cash (replay (executed (fst (step c hp))) p0))"
    unfolding hp by (intro cash_step) simp_all
  with Cons show ?case by simp
qed

text \<open>Without an undo, the portfolio is the replay itself.\<close>

lemma run_without_undo:
  "Undo \<notin> set cs \<Longrightarrow> undone (fst hp) = [] \<Longrightarrow> snd hp = replay (executed (fst hp)) p0 \<Longrightarrow>
   snd (run cs hp) = replay (executed (fst (run cs hp))) p0"
proof (induction cs arbitrary: hp)
  case Nil
  then show ?case by simp
next
  case (Cons c cs)
  obtain h p where hp: "hp = (h, p)" by (cases hp)
  from Cons.prems have "undone (fst (step c hp)) = []
      \<and> snd (step c hp) = replay (executed (fst (step c hp))) p0"
    by (cases c) (simp_all add: hp execute_def redo_def replay_append)
  with Cons show ?case by simp
qed

lemma shares_step:
  assumes "\<forall>s. shares p s = shares (replay (executed h) p0) s"
  shows "\<forall>s. shares (snd (step c (h, p))) s = shares (replay (executed (fst (step c (h, p)))) p0) s"
proof (cases c)
  case (Execute a)
  with assms show ?thesis
    by (simp add: execute_def replay_append shares_execute_action)
next
  case Undo
  show ?thesis
  proof (cases "executed h = []")
    case True
    with assms Undo show ?thesis by (simp add: undo_def)
  next
    case False
    then have U: "executed h = butlast (executed h) @ [last (executed h)]" by simp
    have "\<forall>s. shares p s = shares (replay (butlast (executed h)) p0) s + shares_effect (last (executed h)) s"
      using assms by (subst (asm) U) (simp add: replay_append shares_execute_action)
    with False Undo show ?thesis
      by (simp add: undo_def Let_def shares_undo_action)
  qed
next
  case Redo
  with assms show ?thesis
    by (simp add: redo_def Let_def replay_append shares_execute_action)
qed

lemma shares_run:
  "\<forall>s. shares (snd hp) s = shares (replay (executed (fst hp)) p0) s \<Longrightarrow>
   \<forall>s. shares (snd (run cs hp)) s = shares (replay (executed (fst (run cs hp))) p0) s"
proof (induction cs arbitrary: hp)
  case Nil
  then show ?case by simp
next
  case (Cons c cs)
  obtain h p where hp: "hp = (h, p)" by (cases hp)
  from Cons.prems have "\<forall>s. shares (snd (step c hp)) s = shares (replay (executed (fst (step c hp))) p0) s"
    unfolding hp by (intro shares_step) simp
  then show ?case by (simp add: Cons.IH)
qed

subsection \<open>Calls on an object of the store\<close>







section \<open>The C history\<close>

subsection \<open>One symbol never fills the portfolio\<close>

lemma takeWhile_take_takeWhile:
  "takeWhile P (take n (takeWhile P s)) = take n (takeWhile P s)"
proof -
  have "P x" if "x \<in> set (take n (takeWhile P s))" for x
  proof -
    from that have "x \<in> set (takeWhile P s)" by (rule in_set_takeD)
    then show ?thesis by (rule set_takeWhileD [THEN conjunct2])
  qed
  then show ?thesis
    by (simp add: takeWhile_eq_all_conv)
qed

lemma c_str_take: "c_str (take n (c_str s)) = take n (c_str s)"
  unfolding c_str_def by (rule takeWhile_take_takeWhile)





subsection \<open>The C history clears and keeps its stacks as the variant history does\<close>

lemma history_execute_clears_redo:
  "history_execute h cmd p = Inr (h', p') \<Longrightarrow>
     undo_count h' = 0 \<and> history_redo h' p' = Inr (0, h', p')"
  by (auto simp: history_execute_def history_redo_def split: sum.splits if_splits)

lemma history_empty_noop:
  "exec_count h = 0 \<Longrightarrow> history_undo h p = Inr (0, h, p)"
  "undo_count h = 0 \<Longrightarrow> history_redo h p = Inr (0, h, p)"
  "history_undo (history_init h) p = Inr (0, history_init h, p)"
  "history_redo (history_init h) p = Inr (0, history_init h, p)"
  by (simp_all add: history_undo_def history_redo_def history_init_def)

subsection \<open>The positions of the C portfolio\<close>

lemma map_of_zip_none:
  "(\<forall>j<length xs. xs ! j \<noteq> k) \<Longrightarrow> map_of (zip xs qs) k = None"
proof (induction xs arbitrary: qs)
  case Nil
  then show ?case by simp
next
  case (Cons x xs)
  from Cons.prems have x: "x \<noteq> k" by auto
  from Cons.prems have "\<forall>j<length xs. xs ! j \<noteq> k" by auto
  with x Cons.IH show ?case by (cases qs) simp_all
qed

lemma map_of_zip_first:
  "idx < length xs \<Longrightarrow> idx < length qs \<Longrightarrow> xs ! idx = k \<Longrightarrow> (\<forall>j<idx. xs ! j \<noteq> k) \<Longrightarrow>
     map_of (zip xs qs) k = Some (qs ! idx)"
proof (induction xs arbitrary: qs idx)
  case Nil
  then show ?case by simp
next
  case (Cons x xs)
  from Cons.prems(2) obtain q qs' where qs: "qs = q # qs'" by (cases qs) auto
  show ?case
  proof (cases idx)
    case 0
    with Cons.prems show ?thesis by (simp add: qs)
  next
    case (Suc i)
    with Cons.prems have x: "x \<noteq> k" by auto
    from Cons.prems Suc have "\<forall>j<i. xs ! j \<noteq> k" by auto
    with Cons.prems Suc have "map_of (zip xs qs') k = Some (qs' ! i)"
      by (intro Cons.IH) (simp_all add: qs)
    with x Suc show ?thesis by (simp add: qs)
  qed
qed

lemma map_of_zip_update_first:
  "idx < length xs \<Longrightarrow> idx < length qs \<Longrightarrow> xs ! idx = k \<Longrightarrow> (\<forall>j<idx. xs ! j \<noteq> k) \<Longrightarrow>
     map_of (zip xs (qs[idx := v])) = (map_of (zip xs qs))(k \<mapsto> v)"
proof (induction xs arbitrary: qs idx)
  case Nil
  then show ?case by simp
next
  case (Cons x xs)
  from Cons.prems(2) obtain q qs' where qs: "qs = q # qs'" by (cases qs) auto
  show ?case
  proof (cases idx)
    case 0
    with Cons.prems show ?thesis by (simp add: qs fun_eq_iff)
  next
    case (Suc i)
    with Cons.prems have x: "x \<noteq> k" by auto
    from Cons.prems Suc have "\<forall>j<i. xs ! j \<noteq> k" by auto
    with Cons.prems Suc have "map_of (zip xs (qs'[i := v])) = (map_of (zip xs qs'))(k \<mapsto> v)"
      by (intro Cons.IH) (simp_all add: qs)
    with x Suc show ?thesis by (simp add: qs fun_eq_iff)
  qed
qed

lemma map_of_zip_snoc:
  "length xs < length qs \<Longrightarrow> (\<forall>j<length xs. xs ! j \<noteq> k) \<Longrightarrow>
     map_of (zip (xs @ [k]) (qs[length xs := v])) = (map_of (zip xs qs))(k \<mapsto> v)"
proof (induction xs arbitrary: qs)
  case Nil
  then show ?case by (cases qs) simp_all
next
  case (Cons x xs)
  from Cons.prems(1) obtain q qs' where qs: "qs = q # qs'" by (cases qs) auto
  from Cons.prems have x: "x \<noteq> k" by auto
  from Cons.prems have "\<forall>j<length xs. xs ! j \<noteq> k" by auto
  with Cons.prems have "map_of (zip (xs @ [k]) (qs'[length xs := v])) = (map_of (zip xs qs'))(k \<mapsto> v)"
    by (intro Cons.IH) (simp_all add: qs)
  with x show ?case by (simp add: qs fun_eq_iff)
qed

text \<open>\<open>portfolio_find\<close> returns the first slot that holds the symbol, or -1.\<close>

lemma portfolio_find_loop_spec:
  "count p \<le> MAX_POSITIONS \<Longrightarrow> 0 \<le> i \<Longrightarrow>
     \<exists>idx. portfolio_find_loop p name i = Inr idx
       \<and> ((idx = - 1 \<and> (\<forall>j. nat i \<le> j \<and> j < nat (count p) \<longrightarrow> symbols p ! j \<noteq> c_str name))
          \<or> (i \<le> idx \<and> idx < count p \<and> symbols p ! nat idx = c_str name
              \<and> (\<forall>j. nat i \<le> j \<and> j < nat idx \<longrightarrow> symbols p ! j \<noteq> c_str name)))"
proof (induction p name i rule: portfolio_find_loop.induct)
  case (1 p name i)
  show ?case
  proof (cases "i < count p")
    case False
    then show ?thesis
      by (subst portfolio_find_loop.simps) auto
  next
    case True
    with "1.prems" have b: "0 \<le> i \<and> i < MAX_POSITIONS" by simp
    show ?thesis
    proof (cases "symbols p ! nat i = c_str name")
      case here: True
      with True b show ?thesis
        by (subst portfolio_find_loop.simps) auto
    next
      case there: False
      from True b there "1.prems" obtain idx where
        r: "portfolio_find_loop p name (i + 1) = Inr idx"
        and s: "(idx = - 1 \<and> (\<forall>j. nat (i + 1) \<le> j \<and> j < nat (count p) \<longrightarrow> symbols p ! j \<noteq> c_str name))
          \<or> (i + 1 \<le> idx \<and> idx < count p \<and> symbols p ! nat idx = c_str name
              \<and> (\<forall>j. nat (i + 1) \<le> j \<and> j < nat idx \<longrightarrow> symbols p ! j \<noteq> c_str name))"
        using "1.IH" [OF True] by auto
      have step: "symbols p ! j \<noteq> c_str name" if "nat i \<le> j" "j < n"
        and "\<forall>j. nat (i + 1) \<le> j \<and> j < n \<longrightarrow> symbols p ! j \<noteq> c_str name" for j n
      proof (cases "j = nat i")
        case True
        with there show ?thesis by simp
      next
        case False
        with that(1) "1.prems" have "nat (i + 1) \<le> j" by linarith
        with that show ?thesis by simp
      qed
      have f: "portfolio_find_loop p name i = Inr idx"
        using True b there r by (subst portfolio_find_loop.simps) simp
      from s show ?thesis
      proof
        assume a: "idx = - 1 \<and> (\<forall>j. nat (i + 1) \<le> j \<and> j < nat (count p) \<longrightarrow> symbols p ! j \<noteq> c_str name)"
        then have "\<forall>j. nat i \<le> j \<and> j < nat (count p) \<longrightarrow> symbols p ! j \<noteq> c_str name"
          using step by blast
        with a f show ?thesis by blast
      next
        assume a: "i + 1 \<le> idx \<and> idx < count p \<and> symbols p ! nat idx = c_str name
              \<and> (\<forall>j. nat (i + 1) \<le> j \<and> j < nat idx \<longrightarrow> symbols p ! j \<noteq> c_str name)"
        then have "\<forall>j. nat i \<le> j \<and> j < nat idx \<longrightarrow> symbols p ! j \<noteq> c_str name"
          using step by blast
        with a f show ?thesis by auto
      qed
    qed
  qed
qed

text \<open>
  \<open>portfolio_adjust\<close> on a symbol that the portfolio holds, or that it has a free slot
  for, and on a new symbol when all slots are used.
\<close>

lemma portfolio_find_spec:
  assumes "wf_portfolio p" "is_symbol name"
  obtains
    (absent) "portfolio_find p name = Inr (- 1)"
      "\<forall>j<nat (count p). symbols p ! j \<noteq> name" "positions_c p name = None"
  | (present) idx where "portfolio_find p name = Inr (int idx)" "idx < nat (count p)"
      "symbols p ! idx = name" "\<forall>j<idx. symbols p ! j \<noteq> name"
      "positions_c p name = Some (quantities p ! idx)"
proof -
  from assms(1) have c: "count p \<le> MAX_POSITIONS" "0 \<le> count p"
    and l: "length (symbols p) = nat MAX_POSITIONS" "length (quantities p) = nat MAX_POSITIONS"
    by (simp_all add: wf_portfolio_def)
  from assms(2) have n: "c_str name = name" by (simp add: is_symbol_def)
  let ?xs = "take (nat (count p)) (symbols p)"
  have lx: "length ?xs = nat (count p)" using c l by simp
  from portfolio_find_loop_spec [OF c(1), of 0 name] obtain i where
    f: "portfolio_find p name = Inr i"
    and s: "(i = - 1 \<and> (\<forall>j. j < nat (count p) \<longrightarrow> symbols p ! j \<noteq> name))
          \<or> (0 \<le> i \<and> i < count p \<and> symbols p ! nat i = name
              \<and> (\<forall>j. j < nat i \<longrightarrow> symbols p ! j \<noteq> name))"
    by (auto simp: portfolio_find_def n)
  from s show ?thesis
  proof
    assume a: "i = - 1 \<and> (\<forall>j. j < nat (count p) \<longrightarrow> symbols p ! j \<noteq> name)"
    then have "\<forall>j<length ?xs. ?xs ! j \<noteq> name" by (simp add: lx)
    then have "positions_c p name = None"
      unfolding positions_c_def by (rule map_of_zip_none)
    with a f that(1) show ?thesis by simp
  next
    assume a: "0 \<le> i \<and> i < count p \<and> symbols p ! nat i = name
              \<and> (\<forall>j. j < nat i \<longrightarrow> symbols p ! j \<noteq> name)"
    then have i: "nat i < nat (count p)" by linarith
    have "map_of (zip ?xs (quantities p)) name = Some (quantities p ! nat i)"
    proof (rule map_of_zip_first)
      show "nat i < length ?xs" unfolding lx by (rule i)
      show "nat i < length (quantities p)" using i c l by simp
      show "?xs ! nat i = name" using a i c l by simp
      show "\<forall>j<nat i. ?xs ! j \<noteq> name" using a i by auto
    qed
    then have "positions_c p name = Some (quantities p ! nat i)"
      by (simp add: positions_c_def)
    with a f i that(2) [of "nat i"] show ?thesis by simp
  qed
qed

lemma portfolio_adjust_full:
  assumes "wf_portfolio p" "is_symbol name" "positions_c p name = None" "count p = MAX_POSITIONS"
  shows "portfolio_adjust p name q d = Inl Out_of_bounds"
  using assms(1,2)
proof (cases rule: portfolio_find_spec)
  case absent
  with assms(4) show ?thesis by (simp add: portfolio_adjust_def)
next
  case (present idx)
  with assms(3) show ?thesis by simp
qed

lemma portfolio_adjust_ok:
  assumes "wf_portfolio p" "is_symbol name" "positions_c p name \<noteq> None \<or> count p < MAX_POSITIONS"
  shows "\<exists>p'. portfolio_adjust p name q d = Inr p' \<and> wf_portfolio p'
           \<and> positions_c p' = (positions_c p)(name \<mapsto> subscript (positions_c p) name + q)
           \<and> cash_c p' = fadd (cash_c p) d
           \<and> (distinct_symbols p \<longrightarrow> distinct_symbols p')"
  using assms(1,2)
proof (cases rule: portfolio_find_spec)
  case absent
  from assms(1) have c: "count p \<le> MAX_POSITIONS" "0 \<le> count p"
    and l: "length (symbols p) = nat MAX_POSITIONS" "length (quantities p) = nat MAX_POSITIONS"
    by (simp_all add: wf_portfolio_def)
  from assms(2) have n: "take 15 (c_str name) = name" by (simp add: is_symbol_def)
  from absent(3) assms(3) have room: "count p < MAX_POSITIONS" by simp
  let ?n = "nat (count p)"
  let ?xs = "take ?n (symbols p)"
  define p' where "p' = p\<lparr>count := count p + 1,
                      symbols := (symbols p)[?n := name],
                      quantities := (quantities p)[?n := 0 + q],
                      cash_c := fadd (cash_c p) d\<rparr>"
  have r: "portfolio_adjust p name q d = Inr p'"
    using absent(1) room c by (simp add: portfolio_adjust_def p'_def n)
  have lx: "length ?xs = ?n" using c l by simp
  have nl: "?n < length (symbols p)" "?n < length (quantities p)" using room c l by simp_all
  have t: "take (nat (count p + 1)) ((symbols p)[?n := name]) = ?xs @ [name]"
  proof -
    have "nat (count p + 1) = Suc ?n" using c by simp
    then show ?thesis using nl by (simp add: take_Suc_conv_app_nth)
  qed
  have "map_of (zip (?xs @ [name]) ((quantities p)[length ?xs := 0 + q]))
          = (map_of (zip ?xs (quantities p)))(name \<mapsto> 0 + q)"
  proof (rule map_of_zip_snoc)
    show "length ?xs < length (quantities p)" using nl by (simp add: lx)
    show "\<forall>j<length ?xs. ?xs ! j \<noteq> name" using absent(2) by (simp add: lx)
  qed
  then have pos: "positions_c p' = (positions_c p)(name \<mapsto> subscript (positions_c p) name + q)"
    using absent(3) unfolding lx by (simp add: positions_c_def p'_def t subscript_def)
  have wf: "wf_portfolio p'"
    using room c l by (simp add: wf_portfolio_def p'_def)
  have "name \<notin> set ?xs"
    using absent(2) by (auto simp: in_set_conv_nth lx)
  then have "distinct_symbols p'" if "distinct_symbols p"
    using that by (simp add: distinct_symbols_def p'_def t)
  with r pos wf show ?thesis by (simp add: p'_def)
next
  case (present idx)
  from assms(1) have c: "count p \<le> MAX_POSITIONS" "0 \<le> count p"
    and l: "length (symbols p) = nat MAX_POSITIONS" "length (quantities p) = nat MAX_POSITIONS"
    by (simp_all add: wf_portfolio_def)
  let ?n = "nat (count p)"
  let ?xs = "take ?n (symbols p)"
  define p' where "p' = p\<lparr>quantities := (quantities p)[idx := quantities p ! idx + q],
                      cash_c := fadd (cash_c p) d\<rparr>"
  have r: "portfolio_adjust p name q d = Inr p'"
    using present(1) by (simp add: portfolio_adjust_def p'_def)
  have lx: "length ?xs = ?n" using c l by simp
  have "map_of (zip ?xs ((quantities p)[idx := quantities p ! idx + q]))
          = (map_of (zip ?xs (quantities p)))(name \<mapsto> quantities p ! idx + q)"
  proof (rule map_of_zip_update_first)
    show "idx < length ?xs" unfolding lx by (rule present(2))
    show "idx < length (quantities p)" using present(2) c l by simp
    show "?xs ! idx = name" using present(2,3) c l by simp
    show "\<forall>j<idx. ?xs ! j \<noteq> name" using present(2,4) by auto
  qed
  then have pos: "positions_c p' = (positions_c p)(name \<mapsto> subscript (positions_c p) name + q)"
    using present(5) by (simp add: positions_c_def p'_def subscript_def)
  have wf: "wf_portfolio p'"
    using c l by (simp add: wf_portfolio_def p'_def)
  have "distinct_symbols p'" if "distinct_symbols p"
    using that by (simp add: distinct_symbols_def p'_def)
  with r pos wf show ?thesis by (simp add: p'_def)
qed

subsection \<open>The stacks of the C history\<close>

lemma take_update_snoc: "n < length xs \<Longrightarrow> take (Suc n) (xs[n := c]) = take n xs @ [c]"
  by (simp add: take_Suc_conv_app_nth)

lemma nat_stack_facts:
  assumes "0 \<le> n" "n < m" "length xs = nat m"
  shows "take (nat (n + 1)) (xs[nat n := c]) = take (nat n) xs @ [c]"
    and "take (nat n) (xs[nat n := c]) = take (nat n) xs"
proof -
  from assms have "nat n < length xs" by simp
  moreover from assms have "nat (n + 1) = Suc (nat n)" by simp
  ultimately show "take (nat (n + 1)) (xs[nat n := c]) = take (nat n) xs @ [c]"
    by (simp add: take_update_snoc)
  show "take (nat n) (xs[nat n := c]) = take (nat n) xs" by simp
qed

lemma nat_top_facts:
  assumes "0 \<le> n - 1" "n - 1 < m" "length xs = nat m"
  shows "take (nat (n - 1)) xs = butlast (take (nat n) xs)"
    and "xs ! nat (n - 1) = last (take (nat n) xs)"
    and "take (nat n) xs \<noteq> []"
proof -
  from assms have l: "nat n \<le> length xs" "nat n \<noteq> 0" by simp_all
  have m: "nat (n - 1) = nat n - 1" using assms by simp
  from l show "take (nat (n - 1)) xs = butlast (take (nat n) xs)"
    by (simp add: m butlast_take)
  from l have "take (nat n) xs \<noteq> []" by auto
  then have "last (take (nat n) xs) = take (nat n) xs ! (length (take (nat n) xs) - 1)"
    by (rule last_conv_nth)
  with l show "xs ! nat (n - 1) = last (take (nat n) xs)"
    by (simp add: m)
  from l show "take (nat n) xs \<noteq> []" by auto
qed

lemma history_execute_stacks:
  assumes "wf_history h" "history_execute h cmd p = Inr (h', p')"
  shows "cmd_execute cmd p = Inr p'" "undo_stack_c h' = undo_stack_c h @ [cmd]"
    "redo_stack_c h' = []" "wf_history h'"
    "exec_count h' = exec_count h + 1" "undo_count h' = 0" "exec_count h < MAX_HISTORY"
proof -
  from assms(1) have l: "length (executed_c h) = nat MAX_HISTORY" "length (undone_c h) = nat MAX_HISTORY"
    by (simp_all add: wf_history_def)
  from assms(2) have e: "cmd_execute cmd p = Inr p'"
    and b: "0 \<le> exec_count h" "exec_count h < MAX_HISTORY"
    and h': "h' = h\<lparr>executed_c := (executed_c h)[nat (exec_count h) := cmd],
                    exec_count := exec_count h + 1, undo_count := 0\<rparr>"
    by (auto simp: history_execute_def split: sum.splits if_splits)
  show "cmd_execute cmd p = Inr p'" by (rule e)
  show "undo_stack_c h' = undo_stack_c h @ [cmd]"
    unfolding undo_stack_c_def h' using nat_stack_facts(1) [OF b l(1)] by simp
  show "redo_stack_c h' = []" by (simp add: redo_stack_c_def h')
  show "wf_history h'" using b l by (simp add: wf_history_def h' MAX_HISTORY_def)
  show "exec_count h' = exec_count h + 1" "undo_count h' = 0" by (simp_all add: h')
  show "exec_count h < MAX_HISTORY" by (rule b(2))
qed

lemma history_undo_stacks:
  assumes "wf_history h" "history_undo h p = Inr (r, h', p')"
  obtains (unchanged) "r = 0" "exec_count h = 0" "undo_stack_c h = []" "h' = h" "p' = p"
  | (undone) "r = 1" "undo_stack_c h \<noteq> []" "cmd_undo (last (undo_stack_c h)) p = Inr p'"
      "undo_stack_c h' = butlast (undo_stack_c h)"
      "redo_stack_c h' = redo_stack_c h @ [last (undo_stack_c h)]" "wf_history h'"
proof (cases "exec_count h = 0")
  case True
  with assms(2) have "r = 0" "h' = h" "p' = p" "undo_stack_c h = []"
    by (simp_all add: history_undo_def undo_stack_c_def)
  with True that(1) show ?thesis by blast
next
  case False
  from assms(1) have l: "length (executed_c h) = nat MAX_HISTORY" "length (undone_c h) = nat MAX_HISTORY"
    by (simp_all add: wf_history_def)
  let ?cmd = "executed_c h ! nat (exec_count h - 1)"
  from assms(2) False have r: "r = 1" and e: "cmd_undo ?cmd p = Inr p'"
    and b: "0 \<le> exec_count h - 1" "exec_count h - 1 < MAX_HISTORY"
    and u: "0 \<le> undo_count h" "undo_count h < MAX_HISTORY"
    and h': "h' = h\<lparr>exec_count := exec_count h - 1,
                    undone_c := (undone_c h)[nat (undo_count h) := ?cmd],
                    undo_count := undo_count h + 1\<rparr>"
    by (auto simp: history_undo_def Let_def split: sum.splits if_splits)
  note t = nat_top_facts [OF b l(1)]
  show ?thesis
  proof (rule that(2))
    show "r = 1" by (rule r)
    show "undo_stack_c h \<noteq> []" unfolding undo_stack_c_def by (rule t(3))
    show "cmd_undo (last (undo_stack_c h)) p = Inr p'"
      unfolding undo_stack_c_def t(2) [symmetric] by (rule e)
    show "undo_stack_c h' = butlast (undo_stack_c h)"
      unfolding undo_stack_c_def h' using t(1) by simp
    show "redo_stack_c h' = redo_stack_c h @ [last (undo_stack_c h)]"
      unfolding undo_stack_c_def redo_stack_c_def h' t(2) [symmetric]
      using nat_stack_facts(1) [OF u l(2)] by simp
    show "wf_history h'" using b u l by (simp add: wf_history_def h' MAX_HISTORY_def)
  qed
qed

lemma history_redo_stacks:
  assumes "wf_history h" "history_redo h p = Inr (r, h', p')"
  obtains (unchanged) "r = 0" "undo_count h = 0" "redo_stack_c h = []" "h' = h" "p' = p"
  | (redone) "r = 1" "redo_stack_c h \<noteq> []" "cmd_execute (last (redo_stack_c h)) p = Inr p'"
      "redo_stack_c h' = butlast (redo_stack_c h)"
      "undo_stack_c h' = undo_stack_c h @ [last (redo_stack_c h)]" "wf_history h'"
proof (cases "undo_count h = 0")
  case True
  with assms(2) have "r = 0" "h' = h" "p' = p" "redo_stack_c h = []"
    by (simp_all add: history_redo_def redo_stack_c_def)
  with True that(1) show ?thesis by blast
next
  case False
  from assms(1) have l: "length (executed_c h) = nat MAX_HISTORY" "length (undone_c h) = nat MAX_HISTORY"
    by (simp_all add: wf_history_def)
  let ?cmd = "undone_c h ! nat (undo_count h - 1)"
  from assms(2) False have r: "r = 1" and e: "cmd_execute ?cmd p = Inr p'"
    and b: "0 \<le> undo_count h - 1" "undo_count h - 1 < MAX_HISTORY"
    and u: "0 \<le> exec_count h" "exec_count h < MAX_HISTORY"
    and h': "h' = h\<lparr>undo_count := undo_count h - 1,
                    executed_c := (executed_c h)[nat (exec_count h) := ?cmd],
                    exec_count := exec_count h + 1\<rparr>"
    by (auto simp: history_redo_def Let_def split: sum.splits if_splits)
  note t = nat_top_facts [OF b l(2)]
  show ?thesis
  proof (rule that(2))
    show "r = 1" by (rule r)
    show "redo_stack_c h \<noteq> []" unfolding redo_stack_c_def by (rule t(3))
    show "cmd_execute (last (redo_stack_c h)) p = Inr p'"
      unfolding redo_stack_c_def t(2) [symmetric] by (rule e)
    show "redo_stack_c h' = butlast (redo_stack_c h)"
      unfolding redo_stack_c_def h' using t(1) by simp
    show "undo_stack_c h' = undo_stack_c h @ [last (redo_stack_c h)]"
      unfolding undo_stack_c_def redo_stack_c_def h' t(2) [symmetric]
      using nat_stack_facts(1) [OF u l(1)] by simp
    show "wf_history h'" using b u l by (simp add: wf_history_def h' MAX_HISTORY_def)
  qed
qed

subsection \<open>Commands on the C portfolio\<close>

lemma cmd_execute_adjust:
  "cmd_execute cmd p = portfolio_adjust p (symbol cmd) (shares_effect_c cmd) (cash_effect_c cmd)"
  by (cases "type cmd")
     (simp_all add: cmd_execute_def portfolio_buy_def portfolio_sell_def shares_effect_c_def
        cash_effect_c_def)

lemma cmd_undo_adjust:
  "cmd_undo cmd p = portfolio_adjust p (symbol cmd) (- shares_effect_c cmd) (fneg (cash_effect_c cmd))"
  by (cases "type cmd")
     (simp_all add: cmd_undo_def portfolio_reverse_buy_def portfolio_reverse_sell_def
        shares_effect_c_def cash_effect_c_def fneg_fneg)

lemma zip_take_right: "zip xs (take (length xs) ys) = zip xs ys"
proof (induction xs arbitrary: ys)
  case Nil
  then show ?case by simp
next
  case (Cons x xs)
  then show ?case by (cases ys) simp_all
qed

lemma dom_positions_c:
  assumes "wf_portfolio p"
  shows "dom (positions_c p) = set (take (nat (count p)) (symbols p))"
proof -
  let ?xs = "take (nat (count p)) (symbols p)"
  from assms have "length ?xs \<le> length (quantities p)"
    by (simp add: wf_portfolio_def)
  then have "length ?xs = length (take (length ?xs) (quantities p))" by simp
  then have "dom (map_of (zip ?xs (take (length ?xs) (quantities p)))) = set ?xs"
    by (rule dom_map_of_zip)
  then have "dom (map_of (zip ?xs (quantities p))) = set ?xs"
    by (simp only: zip_take_right)
  then show ?thesis by (simp only: positions_c_def)
qed

lemma card_positions_c:
  assumes "wf_portfolio p" "distinct_symbols p"
  shows "int (card (dom (positions_c p))) = count p"
proof -
  from assms(2) have "card (set (take (nat (count p)) (symbols p))) = length (take (nat (count p)) (symbols p))"
    unfolding distinct_symbols_def by (rule distinct_card)
  moreover from assms(1) have "nat (count p) \<le> length (symbols p)" "0 \<le> count p"
    by (auto simp: wf_portfolio_def MAX_POSITIONS_def)
  ultimately show ?thesis
    using assms(1) by (simp add: dom_positions_c)
qed

text \<open>A command returns exactly when the portfolio holds its symbol or has a free slot.\<close>

lemma cmd_execute_returns:
  assumes "wf_portfolio p" "is_symbol (symbol cmd)" "cmd_execute cmd p = Inr p'"
  shows "positions_c p (symbol cmd) \<noteq> None \<or> count p < MAX_POSITIONS"
proof (rule ccontr)
  assume "\<not> (positions_c p (symbol cmd) \<noteq> None \<or> count p < MAX_POSITIONS)"
  with assms(1) have "positions_c p (symbol cmd) = None" "count p = MAX_POSITIONS"
    by (simp_all add: wf_portfolio_def)
  with assms(1,2) have "cmd_execute cmd p = Inl Out_of_bounds"
    unfolding cmd_execute_adjust by (rule portfolio_adjust_full)
  with assms(3) show False by simp
qed

lemma cmd_execute_spec:
  assumes "wf_portfolio p" "is_symbol (symbol cmd)" "cmd_execute cmd p = Inr p'"
  shows "wf_portfolio p'"
    "positions_c p' = (positions_c p)(symbol cmd \<mapsto> subscript (positions_c p) (symbol cmd) + shares_effect_c cmd)"
    "cash_c p' = fadd (cash_c p) (cash_effect_c cmd)"
    "distinct_symbols p \<Longrightarrow> distinct_symbols p'"
proof -
  from assms have "positions_c p (symbol cmd) \<noteq> None \<or> count p < MAX_POSITIONS"
    by (rule cmd_execute_returns)
  with assms(1,2) obtain q where
    q: "portfolio_adjust p (symbol cmd) (shares_effect_c cmd) (cash_effect_c cmd) = Inr q"
      "wf_portfolio q"
      "positions_c q = (positions_c p)(symbol cmd \<mapsto> subscript (positions_c p) (symbol cmd) + shares_effect_c cmd)"
      "cash_c q = fadd (cash_c p) (cash_effect_c cmd)"
      "distinct_symbols p \<longrightarrow> distinct_symbols q"
    using portfolio_adjust_ok [of p "symbol cmd" "shares_effect_c cmd" "cash_effect_c cmd"] by blast
  from q(1) assms(3) have "q = p'" by (simp add: cmd_execute_adjust)
  with q show "wf_portfolio p'"
    "positions_c p' = (positions_c p)(symbol cmd \<mapsto> subscript (positions_c p) (symbol cmd) + shares_effect_c cmd)"
    "cash_c p' = fadd (cash_c p) (cash_effect_c cmd)"
    "distinct_symbols p \<Longrightarrow> distinct_symbols p'"
    by simp_all
qed

lemma cmd_execute_total:
  assumes "wf_portfolio p" "is_symbol (symbol cmd)"
    "positions_c p (symbol cmd) \<noteq> None \<or> count p < MAX_POSITIONS"
  shows "\<exists>p'. cmd_execute cmd p = Inr p'"
  using portfolio_adjust_ok [OF assms, of "shares_effect_c cmd" "cash_effect_c cmd"]
  by (auto simp: cmd_execute_adjust)

lemma cmd_undo_spec:
  assumes "wf_portfolio p" "is_symbol (symbol cmd)" "positions_c p (symbol cmd) \<noteq> None"
  shows "\<exists>p'. cmd_undo cmd p = Inr p' \<and> wf_portfolio p'
     \<and> positions_c p' = (positions_c p)(symbol cmd \<mapsto> subscript (positions_c p) (symbol cmd) - shares_effect_c cmd)
     \<and> cash_c p' = fadd (cash_c p) (fneg (cash_effect_c cmd))
     \<and> (distinct_symbols p \<longrightarrow> distinct_symbols p')"
proof -
  from assms(3) have "positions_c p (symbol cmd) \<noteq> None \<or> count p < MAX_POSITIONS" by simp
  from portfolio_adjust_ok [OF assms(1,2) this, of "- shares_effect_c cmd" "fneg (cash_effect_c cmd)"]
  show ?thesis by (simp add: cmd_undo_adjust)
qed




subsection \<open>Calls on a variable\<close>


subsection \<open>The replay of the C undo stack\<close>

lemma replay_c_append:
  "replay_c (xs @ ys) p =
     (case replay_c xs p of Inl f \<Rightarrow> Inl f | Inr q \<Rightarrow> replay_c ys q)"
  by (induction xs arbitrary: p) (simp_all split: sum.splits)

lemma replay_c_snoc:
  assumes "replay_c (xs @ [cmd]) p = Inr r"
  obtains q where "replay_c xs p = Inr q" "cmd_execute cmd q = Inr r"
  using assms by (auto simp: replay_c_append split: sum.splits)

lemma replay_c_wf:
  "wf_portfolio p \<Longrightarrow> distinct_symbols p \<Longrightarrow> list_all (\<lambda>cmd. is_symbol (symbol cmd)) xs \<Longrightarrow>
   replay_c xs p = Inr r \<Longrightarrow> wf_portfolio r \<and> distinct_symbols r"
proof (induction xs arbitrary: p)
  case Nil
  then show ?case by simp
next
  case (Cons cmd xs)
  from Cons.prems(4) obtain q where q: "cmd_execute cmd p = Inr q" "replay_c xs q = Inr r"
    by (auto split: sum.splits)
  from Cons.prems(3) have sy: "is_symbol (symbol cmd)" "list_all (\<lambda>cmd. is_symbol (symbol cmd)) xs"
    by simp_all
  note x = cmd_execute_spec [OF Cons.prems(1) sy(1) q(1)]
  from x(1) x(4) [OF Cons.prems(2)] sy(2) q(2) show ?case by (rule Cons.IH)
qed

lemma subscript_upd: "subscript (m(k \<mapsto> v)) s = (if s = k then v else subscript m s)"
  by (simp add: subscript_def)

text \<open>
  A portfolio that tracks another has a slot for a symbol, or a free slot, whenever
  the other has.
\<close>

lemma tracks_room:
  assumes "tracks r p" "positions_c p s \<noteq> None \<or> count p < MAX_POSITIONS"
  shows "positions_c r s \<noteq> None \<or> count r < MAX_POSITIONS"
proof (cases "positions_c r s = None")
  case False
  then show ?thesis by simp
next
  case True
  from assms(1) have wf: "wf_portfolio r" "distinct_symbols r" "wf_portfolio p" "distinct_symbols p"
    and sub: "dom (positions_c r) \<subseteq> dom (positions_c p)"
    by (simp_all add: tracks_def)
  have fin: "finite (dom (positions_c p))"
    by (simp add: positions_c_def finite_dom_map_of)
  have cr: "int (card (dom (positions_c r))) = count r" using wf(1,2) by (rule card_positions_c)
  have cp: "int (card (dom (positions_c p))) = count p" using wf(3,4) by (rule card_positions_c)
  from wf(3) have le: "count p \<le> MAX_POSITIONS" by (simp add: wf_portfolio_def)
  show ?thesis
  proof (cases "positions_c p s = None")
    case True
    with assms(2) have "count p < MAX_POSITIONS" by simp
    moreover from sub fin have "card (dom (positions_c r)) \<le> card (dom (positions_c p))"
      by (simp add: card_mono)
    ultimately show ?thesis using cr cp by simp
  next
    case False
    with True sub have "dom (positions_c r) \<subset> dom (positions_c p)" by auto
    with fin have "card (dom (positions_c r)) < card (dom (positions_c p))"
      by (simp add: psubset_card_mono)
    with cr cp le show ?thesis by simp
  qed
qed

text \<open>Executing and undoing a command on a portfolio and on one that tracks it.\<close>

lemma tracks_execute:
  assumes "tracks r p" "is_symbol (symbol cmd)" "cmd_execute cmd p = Inr p'"
  obtains r' where "cmd_execute cmd r = Inr r'" "tracks r' p'"
    "cash_c r' = fadd (cash_c r) (cash_effect_c cmd)"
    "cash_c p' = fadd (cash_c p) (cash_effect_c cmd)"
proof -
  from assms(1) have wf: "wf_portfolio r" "distinct_symbols r" "wf_portfolio p" "distinct_symbols p"
    and sub: "dom (positions_c r) \<subseteq> dom (positions_c p)"
    and eq: "\<And>s. subscript (positions_c r) s = subscript (positions_c p) s"
    by (simp_all add: tracks_def)
  note xp = cmd_execute_spec [OF wf(3) assms(2,3)]
  from wf(3) assms(2,3) have "positions_c p (symbol cmd) \<noteq> None \<or> count p < MAX_POSITIONS"
    by (rule cmd_execute_returns)
  with assms(1) have "positions_c r (symbol cmd) \<noteq> None \<or> count r < MAX_POSITIONS"
    by (rule tracks_room)
  with wf(1) assms(2) obtain r' where r': "cmd_execute cmd r = Inr r'"
    using cmd_execute_total by blast
  note xr = cmd_execute_spec [OF wf(1) assms(2) r']
  have t: "tracks r' p'"
    unfolding tracks_def
    using xr(1) xr(4) [OF wf(2)] xp(1) xp(4) [OF wf(4)] sub
    by (auto simp: xr(2) xp(2) eq subscript_upd)
  show ?thesis by (rule that [OF r' t xr(3) xp(3)])
qed

lemma tracks_undo:
  assumes "tracks r p" "is_symbol (symbol cmd)" "wf_portfolio r0" "distinct_symbols r0"
    "cmd_execute cmd r0 = Inr r" "cmd_undo cmd p = Inr p'"
  obtains r2 where "tracks r0 p'" "cmd_undo cmd r = Inr r2"
    "cash_c r2 = fadd (cash_c r) (fneg (cash_effect_c cmd))"
    "cash_c p' = fadd (cash_c p) (fneg (cash_effect_c cmd))"
proof -
  from assms(1) have wf: "wf_portfolio r" "distinct_symbols r" "wf_portfolio p" "distinct_symbols p"
    and sub: "dom (positions_c r) \<subseteq> dom (positions_c p)"
    and eq: "\<And>s. subscript (positions_c r) s = subscript (positions_c p) s"
    by (simp_all add: tracks_def)
  note x0 = cmd_execute_spec [OF assms(3,2,5)]
  from x0(2) have inr: "positions_c r (symbol cmd) \<noteq> None" by simp
  with sub have inp: "positions_c p (symbol cmd) \<noteq> None" by auto
  from cmd_undo_spec [OF wf(3) assms(2) inp] assms(6) have
    p': "wf_portfolio p'"
      "positions_c p' = (positions_c p)(symbol cmd \<mapsto>
         subscript (positions_c p) (symbol cmd) - shares_effect_c cmd)"
      "cash_c p' = fadd (cash_c p) (fneg (cash_effect_c cmd))"
      "distinct_symbols p'"
    using wf(4) by auto
  from cmd_undo_spec [OF wf(1) assms(2) inr] obtain r2 where
    r2: "cmd_undo cmd r = Inr r2" "cash_c r2 = fadd (cash_c r) (fneg (cash_effect_c cmd))"
    by blast
  have e: "subscript (positions_c r0) s = subscript (positions_c p') s" for s
  proof (cases "s = symbol cmd")
    case True
    from eq [of "symbol cmd"]
    have "subscript (positions_c r0) (symbol cmd) + shares_effect_c cmd
            = subscript (positions_c p) (symbol cmd)"
      by (simp add: x0(2) subscript_upd)
    then have "subscript (positions_c p) (symbol cmd) - shares_effect_c cmd
            = subscript (positions_c r0) (symbol cmd)"
      by (simp add: diff_eq_eq)
    with True show ?thesis by (simp add: p'(2) subscript_upd)
  next
    case False
    with eq [of s] show ?thesis by (simp add: p'(2) x0(2) subscript_upd)
  qed
  have "dom (positions_c r0) \<subseteq> dom (positions_c p')"
    using sub by (auto simp: p'(2) x0(2) split: if_splits)
  with e have t: "tracks r0 p'"
    unfolding tracks_def using assms(3,4) p'(1,4) by simp
  show ?thesis by (rule that [OF t r2 p'(3)])
qed

text \<open>The invariant of a run of the C history.\<close>

lemma symbols_fit_parts:
  "symbols_fit h \<longleftrightarrow>
     list_all (\<lambda>cmd. is_symbol (symbol cmd)) (undo_stack_c h)
     \<and> list_all (\<lambda>cmd. is_symbol (symbol cmd)) (redo_stack_c h)"
  by (simp add: symbols_fit_def)

lemma list_all_last: "list_all P xs \<Longrightarrow> xs \<noteq> [] \<Longrightarrow> P (last xs)"
  by (simp add: list_all_iff)

lemma list_all_butlast: "list_all P xs \<Longrightarrow> list_all P (butlast xs)"
  by (auto simp: list_all_iff dest: in_set_butlastD)

lemma step_c_tracks:
  assumes p0: "wf_portfolio p0" "distinct_symbols p0"
    and h: "wf_history h" "symbols_fit h"
    and c: "executes_symbols [c]"
    and r: "replay_c (undo_stack_c h) p0 = Inr r" "tracks r p"
    and st: "step_c c (h, p) = Inr (h', p')"
  shows "\<exists>r'. wf_history h' \<and> symbols_fit h'
    \<and> replay_c (undo_stack_c h') p0 = Inr r' \<and> tracks r' p'
    \<and> (same_cash (cash_c r) (cash_c p) \<longrightarrow> undo_reverses_c p0 c (h, p) \<longrightarrow>
         same_cash (cash_c r') (cash_c p'))"
proof (cases c)
  case (Execute_c cmd)
  with st have e: "history_execute h cmd p = Inr (h', p')" by simp
  from c Execute_c have sy: "is_symbol (symbol cmd)" by simp
  note s = history_execute_stacks [OF h(1) e]
  from r(2) sy s(1) obtain r' where
    r': "cmd_execute cmd r = Inr r'" "tracks r' p'"
      "cash_c r' = fadd (cash_c r) (cash_effect_c cmd)"
      "cash_c p' = fadd (cash_c p) (cash_effect_c cmd)"
    by (rule tracks_execute)
  show ?thesis
  proof (intro exI [of _ r'] conjI impI)
    show "wf_history h'" by (rule s(4))
    show "symbols_fit h'"
      using h(2) sy by (simp add: symbols_fit_parts s(2,3))
    show "replay_c (undo_stack_c h') p0 = Inr r'"
      by (simp add: s(2) replay_c_append r(1) r'(1))
    show "tracks r' p'" by (rule r'(2))
    show "same_cash (cash_c r') (cash_c p')" if "same_cash (cash_c r) (cash_c p)"
      using that by (simp add: r'(3,4) same_cash_fadd)
  qed
next
  case Undo_c
  with st obtain rr where u: "history_undo h p = Inr (rr, h', p')"
    by (auto split: sum.splits)
  from h(1) u show ?thesis
  proof (cases rule: history_undo_stacks)
    case unchanged
    show ?thesis
    proof (intro exI [of _ r] conjI impI)
      show "wf_history h'" "symbols_fit h'" "replay_c (undo_stack_c h') p0 = Inr r" "tracks r p'"
        using h r unchanged by simp_all
      show "same_cash (cash_c r) (cash_c p')" if "same_cash (cash_c r) (cash_c p)"
        using that unchanged by simp
    qed
  next
    case undone
    let ?a = "last (undo_stack_c h)"
    from h(2) have fit: "list_all (\<lambda>cmd. is_symbol (symbol cmd)) (undo_stack_c h)"
      "list_all (\<lambda>cmd. is_symbol (symbol cmd)) (redo_stack_c h)"
      by (simp_all add: symbols_fit_parts)
    from fit(1) undone(2) have sy: "is_symbol (symbol ?a)" by (rule list_all_last)
    from undone(2) have U: "undo_stack_c h = butlast (undo_stack_c h) @ [?a]" by simp
    from r(1) obtain r0 where
      r0: "replay_c (butlast (undo_stack_c h)) p0 = Inr r0" "cmd_execute ?a r0 = Inr r"
      by (subst (asm) U) (erule replay_c_snoc)
    from fit(1) have "list_all (\<lambda>cmd. is_symbol (symbol cmd)) (butlast (undo_stack_c h))"
      by (rule list_all_butlast)
    with p0 have w0: "wf_portfolio r0 \<and> distinct_symbols r0"
      using r0(1) by (rule replay_c_wf)
    then have w0': "wf_portfolio r0" "distinct_symbols r0" by simp_all
    from r(2) sy w0' r0(2) undone(3) obtain r2 where
      t: "tracks r0 p'" "cmd_undo ?a r = Inr r2"
        "cash_c r2 = fadd (cash_c r) (fneg (cash_effect_c ?a))"
        "cash_c p' = fadd (cash_c p) (fneg (cash_effect_c ?a))"
      by (rule tracks_undo)
    show ?thesis
    proof (intro exI [of _ r0] conjI impI)
      show "wf_history h'" by (rule undone(6))
      show "symbols_fit h'"
        using fit sy by (simp add: symbols_fit_parts undone(4,5) list_all_butlast)
      show "replay_c (undo_stack_c h') p0 = Inr r0"
        by (simp add: undone(4) r0(1))
      show "tracks r0 p'" by (rule t(1))
      show "same_cash (cash_c r0) (cash_c p')"
        if sc: "same_cash (cash_c r) (cash_c p)" and ur: "undo_reverses_c p0 c (h, p)"
      proof -
        from undone(2) have "exec_count h \<noteq> 0" by (auto simp: undo_stack_c_def)
        with ur Undo_c have "reversible_c ?a r0" by (simp add: r0(1))
        then have "same_cash (cash_c r2) (cash_c r0)"
          by (simp add: reversible_c_def r0(2) t(2))
        moreover from sc have "same_cash (cash_c r2) (cash_c p')"
          by (simp add: t(3,4) same_cash_fadd)
        ultimately show ?thesis
          by (blast intro: same_cash_sym same_cash_trans)
      qed
    qed
  qed
next
  case Redo_c
  with st obtain rr where u: "history_redo h p = Inr (rr, h', p')"
    by (auto split: sum.splits)
  from h(1) u show ?thesis
  proof (cases rule: history_redo_stacks)
    case unchanged
    show ?thesis
    proof (intro exI [of _ r] conjI impI)
      show "wf_history h'" "symbols_fit h'" "replay_c (undo_stack_c h') p0 = Inr r" "tracks r p'"
        using h r unchanged by simp_all
      show "same_cash (cash_c r) (cash_c p')" if "same_cash (cash_c r) (cash_c p)"
        using that unchanged by simp
    qed
  next
    case redone
    let ?a = "last (redo_stack_c h)"
    from h(2) have fit: "list_all (\<lambda>cmd. is_symbol (symbol cmd)) (undo_stack_c h)"
      "list_all (\<lambda>cmd. is_symbol (symbol cmd)) (redo_stack_c h)"
      by (simp_all add: symbols_fit_parts)
    from fit(2) redone(2) have sy: "is_symbol (symbol ?a)" by (rule list_all_last)
    from r(2) sy redone(3) obtain r' where
      r': "cmd_execute ?a r = Inr r'" "tracks r' p'"
        "cash_c r' = fadd (cash_c r) (cash_effect_c ?a)"
        "cash_c p' = fadd (cash_c p) (cash_effect_c ?a)"
      by (rule tracks_execute)
    show ?thesis
    proof (intro exI [of _ r'] conjI impI)
      show "wf_history h'" by (rule redone(6))
      show "symbols_fit h'"
        using fit sy by (simp add: symbols_fit_parts redone(4,5) list_all_butlast)
      show "replay_c (undo_stack_c h') p0 = Inr r'"
        by (simp add: redone(5) replay_c_append r(1) r'(1))
      show "tracks r' p'" by (rule r'(2))
      show "same_cash (cash_c r') (cash_c p')" if "same_cash (cash_c r) (cash_c p)"
        using that by (simp add: r'(3,4) same_cash_fadd)
    qed
  qed
qed

lemma executes_symbols_Cons:
  "executes_symbols (c # cs) \<longleftrightarrow> executes_symbols [c] \<and> executes_symbols cs"
  by (cases c) simp_all

lemma run_c_tracks:
  assumes p0: "wf_portfolio p0" "distinct_symbols p0"
  shows "wf_history h \<Longrightarrow> symbols_fit h \<Longrightarrow> executes_symbols cs \<Longrightarrow>
     replay_c (undo_stack_c h) p0 = Inr r \<Longrightarrow> tracks r p \<Longrightarrow> run_c cs (h, p) = Inr (h', p') \<Longrightarrow>
     \<exists>r'. replay_c (undo_stack_c h') p0 = Inr r' \<and> tracks r' p'
       \<and> (same_cash (cash_c r) (cash_c p) \<longrightarrow> undos_reverse_c p0 cs (h, p) \<longrightarrow>
            same_cash (cash_c r') (cash_c p'))"
proof (induction cs arbitrary: h p r)
  case Nil
  then show ?case by auto
next
  case (Cons c cs)
  from Cons.prems(3) executes_symbols_Cons [of c cs]
  have c: "executes_symbols [c]" and cs: "executes_symbols cs"
    by blast+
  from Cons.prems(6) obtain h1 p1 where
    s1: "step_c c (h, p) = Inr (h1, p1)" and rest: "run_c cs (h1, p1) = Inr (h', p')"
    by (auto split: sum.splits)
  from step_c_tracks [OF p0 Cons.prems(1,2) c Cons.prems(4,5) s1] obtain r1 where
    i: "wf_history h1" "symbols_fit h1" "replay_c (undo_stack_c h1) p0 = Inr r1" "tracks r1 p1"
    and k: "same_cash (cash_c r) (cash_c p) \<longrightarrow> undo_reverses_c p0 c (h, p) \<longrightarrow>
       same_cash (cash_c r1) (cash_c p1)"
    by blast
  from Cons.IH [OF i(1,2) cs i(3,4) rest] obtain r' where
    r': "replay_c (undo_stack_c h') p0 = Inr r'" "tracks r' p'"
      "same_cash (cash_c r1) (cash_c p1) \<longrightarrow> undos_reverse_c p0 cs (h1, p1) \<longrightarrow>
            same_cash (cash_c r') (cash_c p')"
    by blast
  have "same_cash (cash_c r') (cash_c p')"
    if "same_cash (cash_c r) (cash_c p)" "undos_reverse_c p0 (c # cs) (h, p)"
    using that k r'(3) by (simp add: s1)
  with r'(1,2) show ?case by blast
qed

section \<open>The claims on the history\<close>

subsection \<open>Undo after execute\<close>

text \<open>
  C1, as stated, fails: the cash is a \<open>double\<close>, and \<open>cash - qty * price\<close> rounds.
  With a cash of \<open>1.0\<close>, \<open>BuyTrade{"X", 1, 1e17}\<close> leaves \<open>-1e17\<close> (the exact
  \<open>1 - 1e17\<close> is not a double), and the undo adds \<open>1e17\<close> to that: the cash ends at
  \<open>0.0\<close>, not at \<open>1.0\<close>. It fails at ordinary amounts too: with a cash of \<open>123.45\<close>,
  \<open>BuyTrade{"AAPL", 2, 19.99}\<close> and the undo leave the double just below the one of
  \<open>123.45\<close>, which prints as \<open>123.44999999999999\<close>.
\<close>

theorem undo_changes_cash:
  "cash (Portfolio_init (decimal 1 0)) = decimal 1 0
   \<and> cash (snd (execute (BuyTrade ''X'' 1 (decimal 100000000000000000 0))
              (TradeHistory_init, Portfolio_init (decimal 1 0))))
       = decimal (- 100000000000000000) 0
   \<and> cash (snd (snd (undo (execute (BuyTrade ''X'' 1 (decimal 100000000000000000 0))
              (TradeHistory_init, Portfolio_init (decimal 1 0))))))
       = decimal 0 0
   \<and> \<not> double_eq (decimal 0 0) (decimal 1 0)
   \<and> cash (Portfolio_init (decimal 12345 2)) = Finite False 8687021468732621 (- 46)
   \<and> cash (snd (snd (undo (execute (BuyTrade ''AAPL'' 2 (decimal 1999 2))
              (TradeHistory_init, Portfolio_init (decimal 12345 2))))))
       = Finite False 8687021468732620 (- 46)
   \<and> \<not> double_eq (Finite False 8687021468732620 (- 46)) (Finite False 8687021468732621 (- 46))"
  by code_simp

text \<open>
  C1, amended. For every action \<open>A\<close>, history and portfolio, \<open>execute A\<close> then \<open>undo\<close>
  returns \<open>true\<close> and restores the quantity of every symbol (a symbol that had no
  entry now has the entry 0); and when the cash update of \<open>execute A\<close> does not round,
  it restores the cash too, as \<open>==\<close> compares doubles: to the same double, or to a
  zero where the cash was a zero.
\<close>

theorem undo_restores_portfolio:
  "fst (undo (execute A (h, p)))
   \<and> (\<forall>s. shares (snd (snd (undo (execute A (h, p))))) s = shares p s)
   \<and> (is_double (cash p) \<and> exact_execute A p \<longrightarrow>
        double_eq (cash (snd (snd (undo (execute A (h, p)))))) (cash p))"
proof -
  have u: "undo (execute A (h, p)) =
      (True, h\<lparr>executed := executed h, undone := [A]\<rparr>, undo_action A (execute_action A p))"
    by (simp add: undo_def execute_def)
  have sh: "shares (undo_action A (execute_action A p)) s = shares p s" for s
    by (simp add: shares_undo_action shares_execute_action)
  have "double_eq (cash (undo_action A (execute_action A p))) (cash p)"
    if d: "is_double (cash p)" and e: "exact_execute A p"
  proof -
    from e have n: "\<not> is_nan (cash_effect A)" by (rule exact_execute_not_nan)
    have "double_eq (fadd (fadd (cash p) (cash_effect A)) (fneg (cash_effect A))) (cash p)"
      using d e unfolding exact_execute_def by (rule fadd_round_trip)
    then show ?thesis
      by (simp add: cash_undo_action [OF n] cash_execute_action [OF n])
  qed
  with sh show ?thesis
    by (simp add: u)
qed

theorem undo_restores_portfolio_witness:
  "is_double (cash (Portfolio_init (decimal 1000000 0)))
   \<and> exact_execute (BuyTrade ''AAPL'' 100 (decimal 18550 2)) (Portfolio_init (decimal 1000000 0))
   \<and> double_eq
        (cash (snd (snd (undo (execute (BuyTrade ''AAPL'' 100 (decimal 18550 2))
           (TradeHistory_init, Portfolio_init (decimal 1000000 0)))))))
        (cash (Portfolio_init (decimal 1000000 0)))
   \<and> shares (snd (snd (undo (execute (BuyTrade ''AAPL'' 100 (decimal 18550 2))
           (TradeHistory_init, Portfolio_init (decimal 1000000 0)))))) ''AAPL''
       = shares (Portfolio_init (decimal 1000000 0)) ''AAPL''"
proof -
  have d: "is_double (cash (Portfolio_init (decimal 1000000 0)))"
    by code_simp
  have e: "exact_execute (BuyTrade ''AAPL'' 100 (decimal 18550 2)) (Portfolio_init (decimal 1000000 0))"
    by code_simp
  from d e
    undo_restores_portfolio [of "BuyTrade ''AAPL'' 100 (decimal 18550 2)" TradeHistory_init
      "Portfolio_init (decimal 1000000 0)"]
  show ?thesis by blast
qed

subsection \<open>Execute empties the redo stack\<close>

text \<open>
  C2. Right after any \<open>execute\<close> the redo stack is empty; so after
  \<open>execute A; undo; execute B\<close> a \<open>redo\<close> returns \<open>false\<close> and changes neither the
  history nor the portfolio: the undone \<open>A\<close> cannot be redone. In the C history
  likewise: a \<open>history_execute\<close> that returns leaves \<open>undo_count = 0\<close>, and a
  \<open>history_redo\<close> after it returns 0 and changes nothing.
\<close>

theorem execute_clears_redo:
  "undone (fst (execute A hp)) = []
   \<and> redo (execute B (snd (undo (execute A hp)))) = (False, execute B (snd (undo (execute A hp))))
   \<and> (history_execute hc cmd pc = Inr (hc', pc') \<longrightarrow>
        undo_count hc' = 0 \<and> history_redo hc' pc' = Inr (0, hc', pc'))"
proof -
  have "undo_count hc' = 0 \<and> history_redo hc' pc' = Inr (0, hc', pc')"
    if "history_execute hc cmd pc = Inr (hc', pc')"
    using that by (rule history_execute_clears_redo)
  then show ?thesis
    by (simp add: execute_def redo_def split: prod.splits)
qed

theorem execute_clears_redo_witness:
  "(case history_execute zero_history (cmd_buy ''AAPL'' 100 (decimal 18550 2))
           (portfolio_init (decimal 1000000 0)) of
      Inl f \<Rightarrow> False
    | Inr hp \<Rightarrow>
        undo_count (fst hp) = 0 \<and> history_redo (fst hp) (snd hp) = Inr (0, fst hp, snd hp))"
proof -
  have "\<not> isl (history_execute zero_history (cmd_buy ''AAPL'' 100 (decimal 18550 2))
           (portfolio_init (decimal 1000000 0)))"
    by code_simp
  then obtain h1 p1 where e: "history_execute zero_history (cmd_buy ''AAPL'' 100 (decimal 18550 2))
           (portfolio_init (decimal 1000000 0)) = Inr (h1, p1)"
    by (cases "history_execute zero_history (cmd_buy ''AAPL'' 100 (decimal 18550 2))
           (portfolio_init (decimal 1000000 0))") auto
  from e
    execute_clears_redo [of undefined undefined undefined zero_history
      "cmd_buy ''AAPL'' 100 (decimal 18550 2)" "portfolio_init (decimal 1000000 0)" h1 p1]
  show ?thesis by simp
qed

subsection \<open>The undo stack replays to the portfolio\<close>

text \<open>
  C3, as stated, fails for the cash, by the rounding of C1: after \<open>execute\<close> and
  \<open>undo\<close> from a cash of \<open>1.0\<close> the undo stack is empty, and its replay is the initial
  portfolio with cash \<open>1.0\<close>, but the cash of the portfolio is \<open>0.0\<close>; and after the
  purchase of 2 AAPL at \<open>19.99\<close> and its undo from a cash of \<open>123.45\<close>, the cash is the
  double below that of \<open>123.45\<close>. The C history does the same.
\<close>

theorem replay_misses_cash:
  "executed (fst (run [Execute (BuyTrade ''X'' 1 (decimal 100000000000000000 0)), Undo]
       (TradeHistory_init, Portfolio_init (decimal 1 0)))) = []
   \<and> cash (replay [] (Portfolio_init (decimal 1 0))) = decimal 1 0
   \<and> cash (snd (run [Execute (BuyTrade ''X'' 1 (decimal 100000000000000000 0)), Undo]
       (TradeHistory_init, Portfolio_init (decimal 1 0)))) = decimal 0 0
   \<and> \<not> same_cash (decimal 0 0) (decimal 1 0)
   \<and> executed (fst (run [Execute (BuyTrade ''AAPL'' 2 (decimal 1999 2)), Undo]
       (TradeHistory_init, Portfolio_init (decimal 12345 2)))) = []
   \<and> cash (replay [] (Portfolio_init (decimal 12345 2))) = Finite False 8687021468732621 (- 46)
   \<and> cash (snd (run [Execute (BuyTrade ''AAPL'' 2 (decimal 1999 2)), Undo]
       (TradeHistory_init, Portfolio_init (decimal 12345 2)))) = Finite False 8687021468732620 (- 46)
   \<and> \<not> same_cash (Finite False 8687021468732620 (- 46)) (Finite False 8687021468732621 (- 46))
   \<and> (case run_c [Execute_c (cmd_buy ''AAPL'' 2 (decimal 1999 2)), Undo_c]
              (history_init zero_history, portfolio_init (decimal 12345 2)) of
         Inl f \<Rightarrow> False
       | Inr hp \<Rightarrow>
           undo_stack_c (fst hp) = []
           \<and> cash_c (snd hp) = Finite False 8687021468732620 (- 46))
   \<and> replay_c [] (portfolio_init (decimal 12345 2)) = Inr (portfolio_init (decimal 12345 2))
   \<and> cash_c (portfolio_init (decimal 12345 2)) = Finite False 8687021468732621 (- 46)"
  by code_simp

text \<open>
  C3, amended. After any sequence of \<open>execute\<close>, \<open>undo\<close> and \<open>redo\<close> calls on an empty
  history and a portfolio \<open>p0\<close>, replaying the undo stack from \<open>p0\<close> gives the current
  quantity of every symbol. It gives the current cash too, up to the sign of a zero,
  when each \<open>undo\<close> of the sequence takes back an action that is reversible on the
  replay of the actions before it (\<open>execute\<close> and then \<open>undo\<close> give back the cash
  there), as every action is whose cash update does not round; and without an \<open>undo\<close>
  in the sequence, the replay is the current portfolio itself. In the C history, for
  an initial portfolio within its bounds that has no symbol in two slots, and
  commands whose symbols fit \<open>char[16]\<close>: whenever the sequence of calls, after
  \<open>history_init\<close>, has stayed inside the arrays, the replay of the undo stack stays
  inside them too, and gives the current quantity of every symbol, and under the same
  condition on each \<open>history_undo\<close> the current cash.
\<close>

theorem replay_reproduces_portfolio:
  "(\<forall>s. shares (snd (run cs (TradeHistory_init, p0))) s
          = shares (replay (executed (fst (run cs (TradeHistory_init, p0)))) p0) s)
   \<and> (undos_reverse p0 cs (TradeHistory_init, p0) \<longrightarrow>
        same_cash (cash (snd (run cs (TradeHistory_init, p0))))
          (cash (replay (executed (fst (run cs (TradeHistory_init, p0)))) p0)))
   \<and> (Undo \<notin> set cs \<longrightarrow>
        snd (run cs (TradeHistory_init, p0))
          = replay (executed (fst (run cs (TradeHistory_init, p0)))) p0)
   \<and> (is_double (cash q) \<and> exact_execute a q \<longrightarrow> reversible a q)
   \<and> (wf_history (history_init h0) \<and> wf_portfolio pc0 \<and> distinct_symbols pc0
        \<and> executes_symbols ccs \<longrightarrow>
        (case run_c ccs (history_init h0, pc0) of
           Inl f \<Rightarrow> True
         | Inr hp \<Rightarrow>
             (case replay_c (undo_stack_c (fst hp)) pc0 of
                Inl f \<Rightarrow> False
              | Inr r \<Rightarrow>
                  (\<forall>name. shares_c r name = shares_c (snd hp) name)
                  \<and> (undos_reverse_c pc0 ccs (history_init h0, pc0) \<longrightarrow>
                       same_cash (cash_c r) (cash_c (snd hp))))))"
proof -
  have "\<forall>s. shares (snd (TradeHistory_init, p0)) s
          = shares (replay (executed (fst (TradeHistory_init, p0))) p0) s"
    by (simp add: TradeHistory_init_def)
  then have sh: "\<forall>s. shares (snd (run cs (TradeHistory_init, p0))) s
          = shares (replay (executed (fst (run cs (TradeHistory_init, p0)))) p0) s"
    by (rule shares_run)
  have "same_cash (cash (snd (TradeHistory_init, p0)))
          (cash (replay (executed (fst (TradeHistory_init, p0))) p0))"
    by (simp add: TradeHistory_init_def same_cash_refl)
  then have ca: "same_cash (cash (snd (run cs (TradeHistory_init, p0))))
          (cash (replay (executed (fst (run cs (TradeHistory_init, p0)))) p0))"
    if "undos_reverse p0 cs (TradeHistory_init, p0)"
    using that by (rule cash_run)
  have nu: "snd (run cs (TradeHistory_init, p0))
          = replay (executed (fst (run cs (TradeHistory_init, p0)))) p0"
    if "Undo \<notin> set cs"
    using that by (rule run_without_undo) (simp_all add: TradeHistory_init_def)
  have rv: "reversible a q" if "is_double (cash q) \<and> exact_execute a q"
    using that by (simp add: exact_reversible)
  have c: "(case run_c ccs (history_init h0, pc0) of
           Inl f \<Rightarrow> True
         | Inr hp \<Rightarrow>
             (case replay_c (undo_stack_c (fst hp)) pc0 of
                Inl f \<Rightarrow> False
              | Inr r \<Rightarrow>
                  (\<forall>name. shares_c r name = shares_c (snd hp) name)
                  \<and> (undos_reverse_c pc0 ccs (history_init h0, pc0) \<longrightarrow>
                       same_cash (cash_c r) (cash_c (snd hp)))))"
    if w: "wf_history (history_init h0)" "wf_portfolio pc0" "distinct_symbols pc0"
      "executes_symbols ccs"
  proof (cases "run_c ccs (history_init h0, pc0)")
    case (Inl f)
    then show ?thesis by simp
  next
    case (Inr hp)
    obtain h' p' where hp: "hp = (h', p')" by (cases hp)
    have i: "symbols_fit (history_init h0)"
      "replay_c (undo_stack_c (history_init h0)) pc0 = Inr pc0" "tracks pc0 pc0"
      using w(2,3)
      by (simp_all add: history_init_def symbols_fit_def undo_stack_c_def redo_stack_c_def
          tracks_def)
    from run_c_tracks [OF w(2,3) w(1) i(1) w(4) i(2,3) Inr [unfolded hp]] obtain r where
      r: "replay_c (undo_stack_c h') pc0 = Inr r" "tracks r p'"
        "same_cash (cash_c pc0) (cash_c pc0) \<longrightarrow> undos_reverse_c pc0 ccs (history_init h0, pc0) \<longrightarrow>
            same_cash (cash_c r) (cash_c p')"
      by blast
    from r(2) have "shares_c r name = shares_c p' name" for name
      by (simp add: tracks_def shares_c_def)
    with r(1,3) show ?thesis
      by (simp add: Inr hp same_cash_refl)
  qed
  from sh ca nu rv c show ?thesis by blast
qed

theorem replay_reproduces_portfolio_witness:
  "undos_reverse (Portfolio_init (decimal 1000000 0))
        [Execute (BuyTrade ''AAPL'' 100 (decimal 18550 2)),
         Execute (BuyTrade ''GOOGL'' 50 (decimal 14025 2)),
         Execute (SellTrade ''MSFT'' 75 (decimal 42000 2)), Undo, Undo, Redo]
        (TradeHistory_init, Portfolio_init (decimal 1000000 0))
   \<and> same_cash
        (cash (snd (run
          [Execute (BuyTrade ''AAPL'' 100 (decimal 18550 2)),
           Execute (BuyTrade ''GOOGL'' 50 (decimal 14025 2)),
           Execute (SellTrade ''MSFT'' 75 (decimal 42000 2)), Undo, Undo, Redo]
          (TradeHistory_init, Portfolio_init (decimal 1000000 0)))))
        (cash (replay (executed (fst (run
          [Execute (BuyTrade ''AAPL'' 100 (decimal 18550 2)),
           Execute (BuyTrade ''GOOGL'' 50 (decimal 14025 2)),
           Execute (SellTrade ''MSFT'' 75 (decimal 42000 2)), Undo, Undo, Redo]
          (TradeHistory_init, Portfolio_init (decimal 1000000 0)))))
          (Portfolio_init (decimal 1000000 0))))
   \<and> Undo \<notin> set [Execute (BuyTrade ''AAPL'' 100 (decimal 18550 2)), Redo]
   \<and> snd (run [Execute (BuyTrade ''AAPL'' 100 (decimal 18550 2)), Redo]
            (TradeHistory_init, Portfolio_init (decimal 1000000 0)))
       = replay (executed (fst (run [Execute (BuyTrade ''AAPL'' 100 (decimal 18550 2)), Redo]
            (TradeHistory_init, Portfolio_init (decimal 1000000 0)))))
           (Portfolio_init (decimal 1000000 0))
   \<and> is_double (cash (Portfolio_init (decimal 1000000 0)))
   \<and> exact_execute (BuyTrade ''AAPL'' 100 (decimal 18550 2)) (Portfolio_init (decimal 1000000 0))
   \<and> reversible (BuyTrade ''AAPL'' 100 (decimal 18550 2)) (Portfolio_init (decimal 1000000 0))
   \<and> wf_history (history_init zero_history) \<and> wf_portfolio (portfolio_init (decimal 1000000 0))
   \<and> distinct_symbols (portfolio_init (decimal 1000000 0))
   \<and> executes_symbols
        [Execute_c (cmd_buy ''AAPL'' 100 (decimal 18550 2)),
         Execute_c (cmd_buy ''GOOGL'' 50 (decimal 14025 2)),
         Execute_c (cmd_sell ''MSFT'' 75 (decimal 42000 2)), Undo_c, Undo_c, Redo_c]
   \<and> undos_reverse_c (portfolio_init (decimal 1000000 0))
        [Execute_c (cmd_buy ''AAPL'' 100 (decimal 18550 2)),
         Execute_c (cmd_buy ''GOOGL'' 50 (decimal 14025 2)),
         Execute_c (cmd_sell ''MSFT'' 75 (decimal 42000 2)), Undo_c, Undo_c, Redo_c]
        (history_init zero_history, portfolio_init (decimal 1000000 0))
   \<and> (case run_c
            [Execute_c (cmd_buy ''AAPL'' 100 (decimal 18550 2)),
             Execute_c (cmd_buy ''GOOGL'' 50 (decimal 14025 2)),
             Execute_c (cmd_sell ''MSFT'' 75 (decimal 42000 2)), Undo_c, Undo_c, Redo_c]
            (history_init zero_history, portfolio_init (decimal 1000000 0)) of
         Inl f \<Rightarrow> False
       | Inr hp \<Rightarrow>
           cash_c (snd hp) = decimal 97443750 2
           \<and> (case replay_c (undo_stack_c (fst hp)) (portfolio_init (decimal 1000000 0)) of
                Inl f \<Rightarrow> False
              | Inr r \<Rightarrow>
                  shares_c r ''GOOGL'' = shares_c (snd hp) ''GOOGL''
                  \<and> shares_c r ''MSFT'' = shares_c (snd hp) ''MSFT''
                  \<and> same_cash (cash_c r) (cash_c (snd hp))))"
proof -
  let ?cs = "[Execute (BuyTrade ''AAPL'' 100 (decimal 18550 2)),
         Execute (BuyTrade ''GOOGL'' 50 (decimal 14025 2)),
         Execute (SellTrade ''MSFT'' 75 (decimal 42000 2)), Undo, Undo, Redo]"
  let ?ds = "[Execute (BuyTrade ''AAPL'' 100 (decimal 18550 2)), Redo]"
  let ?A = "BuyTrade ''AAPL'' 100 (decimal 18550 2)"
  let ?p = "Portfolio_init (decimal 1000000 0)"
  let ?ccs = "[Execute_c (cmd_buy ''AAPL'' 100 (decimal 18550 2)),
         Execute_c (cmd_buy ''GOOGL'' 50 (decimal 14025 2)),
         Execute_c (cmd_sell ''MSFT'' 75 (decimal 42000 2)), Undo_c, Undo_c, Redo_c]"
  let ?P = "portfolio_init (decimal 1000000 0)"
  have u: "undos_reverse ?p ?cs (TradeHistory_init, ?p)"
    by code_simp
  have n: "Undo \<notin> set ?ds"
    by simp
  have d: "is_double (cash ?p)" "exact_execute ?A ?p"
    by code_simp+
  have wz: "wf_history (history_init zero_history)"
    by (simp add: wf_history_def history_init_def zero_history_def MAX_HISTORY_def)
  have wp: "wf_portfolio ?P" "distinct_symbols ?P"
    by (simp_all add: wf_portfolio_def distinct_symbols_def portfolio_init_def MAX_POSITIONS_def)
  have es: "executes_symbols ?ccs"
    by (simp add: is_symbol_def cmd_buy_def cmd_sell_def c_str_take)
  have uc: "undos_reverse_c ?P ?ccs (history_init zero_history, ?P)"
    by code_simp
  have rn: "\<not> isl (run_c ?ccs (history_init zero_history, ?P))"
    "cash_c (snd (projr (run_c ?ccs (history_init zero_history, ?P)))) = decimal 97443750 2"
    by code_simp+
  then obtain hp where hp: "run_c ?ccs (history_init zero_history, ?P) = Inr hp"
    by (cases "run_c ?ccs (history_init zero_history, ?P)") auto
  with rn(2) have cash: "cash_c (snd hp) = decimal 97443750 2" by simp
  note t = replay_reproduces_portfolio [where cs = ?cs and ?p0.0 = ?p and q = ?p and a = ?A
      and ?h0.0 = zero_history and ?pc0.0 = ?P and ccs = ?ccs]
  note t2 = replay_reproduces_portfolio [where cs = ?ds and ?p0.0 = ?p and q = ?p and a = ?A
      and ?h0.0 = zero_history and ?pc0.0 = ?P and ccs = ?ccs]
  from t u have 1: "same_cash (cash (snd (run ?cs (TradeHistory_init, ?p))))
        (cash (replay (executed (fst (run ?cs (TradeHistory_init, ?p)))) ?p))"
    by blast
  from t2 n have 2: "snd (run ?ds (TradeHistory_init, ?p))
       = replay (executed (fst (run ?ds (TradeHistory_init, ?p)))) ?p"
    by blast
  from t d have 3: "reversible ?A ?p"
    by blast
  from t wz wp es have "(case run_c ?ccs (history_init zero_history, ?P) of
           Inl f \<Rightarrow> True
         | Inr hp \<Rightarrow>
             (case replay_c (undo_stack_c (fst hp)) ?P of
                Inl f \<Rightarrow> False
              | Inr r \<Rightarrow>
                  (\<forall>name. shares_c r name = shares_c (snd hp) name)
                  \<and> (undos_reverse_c ?P ?ccs (history_init zero_history, ?P) \<longrightarrow>
                       same_cash (cash_c r) (cash_c (snd hp)))))"
    by blast
  then have 4: "(case run_c ?ccs (history_init zero_history, ?P) of
         Inl f \<Rightarrow> False
       | Inr hp \<Rightarrow>
           cash_c (snd hp) = decimal 97443750 2
           \<and> (case replay_c (undo_stack_c (fst hp)) ?P of
                Inl f \<Rightarrow> False
              | Inr r \<Rightarrow>
                  shares_c r ''GOOGL'' = shares_c (snd hp) ''GOOGL''
                  \<and> shares_c r ''MSFT'' = shares_c (snd hp) ''MSFT''
                  \<and> same_cash (cash_c r) (cash_c (snd hp))))"
    unfolding hp sum.case using uc cash
    by (cases "replay_c (undo_stack_c (fst hp)) ?P") simp_all
  from u 1 n 2 d 3 wz wp es uc 4 show ?thesis
    by (intro conjI)
qed

subsection \<open>Redo after undo\<close>




subsection \<open>Empty stacks\<close>

text \<open>
  C5. On a history whose undo stack is empty, \<open>undo\<close> returns \<open>false\<close> and leaves the
  history and the portfolio as they are; on a history whose redo stack is empty, so
  does \<open>redo\<close>. Both hold of a history just constructed. In the C history likewise,
  with 0 for \<open>false\<close>, \<open>exec_count = 0\<close> and \<open>undo_count = 0\<close> for the empty stacks, and
  \<open>history_init\<close> for the construction.
\<close>

theorem empty_stack_noop:
  "(executed h = [] \<longrightarrow> undo (h, p) = (False, h, p))
   \<and> (undone h = [] \<longrightarrow> redo (h, p) = (False, h, p))
   \<and> undo (TradeHistory_init, p) = (False, TradeHistory_init, p)
   \<and> redo (TradeHistory_init, p) = (False, TradeHistory_init, p)
   \<and> (exec_count hc = 0 \<longrightarrow> history_undo hc pc = Inr (0, hc, pc))
   \<and> (undo_count hc = 0 \<longrightarrow> history_redo hc pc = Inr (0, hc, pc))
   \<and> history_undo (history_init hc) pc = Inr (0, history_init hc, pc)
   \<and> history_redo (history_init hc) pc = Inr (0, history_init hc, pc)"
  by (simp add: undo_def redo_def TradeHistory_init_def history_empty_noop)

theorem empty_stack_noop_witness:
  "executed \<lparr>executed = [], undone = [BuyTrade ''AAPL'' 100 (decimal 18550 2)]\<rparr> = []
   \<and> undo (\<lparr>executed = [], undone = [BuyTrade ''AAPL'' 100 (decimal 18550 2)]\<rparr>,
            Portfolio_init (decimal 1000000 0))
       = (False, \<lparr>executed = [], undone = [BuyTrade ''AAPL'' 100 (decimal 18550 2)]\<rparr>,
          Portfolio_init (decimal 1000000 0))
   \<and> undone \<lparr>executed = [BuyTrade ''AAPL'' 100 (decimal 18550 2)], undone = []\<rparr> = []
   \<and> redo (\<lparr>executed = [BuyTrade ''AAPL'' 100 (decimal 18550 2)], undone = []\<rparr>,
            Portfolio_init (decimal 1000000 0))
       = (False, \<lparr>executed = [BuyTrade ''AAPL'' 100 (decimal 18550 2)], undone = []\<rparr>,
          Portfolio_init (decimal 1000000 0))
   \<and> exec_count (zero_history\<lparr>undo_count := 1\<rparr>) = 0
   \<and> history_undo (zero_history\<lparr>undo_count := 1\<rparr>) (portfolio_init (decimal 1000000 0))
       = Inr (0, zero_history\<lparr>undo_count := 1\<rparr>, portfolio_init (decimal 1000000 0))
   \<and> undo_count (zero_history\<lparr>exec_count := 1\<rparr>) = 0
   \<and> history_redo (zero_history\<lparr>exec_count := 1\<rparr>) (portfolio_init (decimal 1000000 0))
       = Inr (0, zero_history\<lparr>exec_count := 1\<rparr>, portfolio_init (decimal 1000000 0))"
proof -
  have z: "exec_count zero_history = 0" "undo_count zero_history = 0"
    by (simp_all add: zero_history_def)
  from z
    empty_stack_noop [of "\<lparr>executed = [], undone = [BuyTrade ''AAPL'' 100 (decimal 18550 2)]\<rparr>"
      "Portfolio_init (decimal 1000000 0)" "zero_history\<lparr>undo_count := 1\<rparr>"
      "portfolio_init (decimal 1000000 0)"]
    empty_stack_noop [of "\<lparr>executed = [BuyTrade ''AAPL'' 100 (decimal 18550 2)], undone = []\<rparr>"
      "Portfolio_init (decimal 1000000 0)" "zero_history\<lparr>exec_count := 1\<rparr>"
      "portfolio_init (decimal 1000000 0)"]
  show ?thesis by simp
qed

subsection \<open>Snapshots\<close>




subsection \<open>The listing\<close>

lemma print_history_loop_map:
  "print_history_loop h i out =
     out @ map (\<lambda>k. ''    '' @ show_nat (int k + 1) @ ''. '' @ c_str (action_description (executed h ! k)))
             [i..<length (executed h)]"
proof (induction h i out rule: print_history_loop.induct)
  case (1 h i out)
  show ?case
  proof (cases "i < length (executed h)")
    case True
    with "1" show ?thesis
      by (subst print_history_loop.simps) (simp add: upt_conv_Cons)
  next
    case False
    then show ?thesis
      by (subst print_history_loop.simps) simp
  qed
qed

text \<open>
  C7, as stated, fails: the source has no \<open>list()\<close> that returns the entries. Its
  listing is \<open>print_history\<close>, which returns nothing and writes to the standard
  output, and what it writes is not the two strings: after the three \<open>execute\<close>, two
  \<open>undo\<close> and one \<open>redo\<close> of the scenario, from a cash of \<open>1000000.00\<close>, it writes a
  heading first, and each entry after four spaces.
\<close>

theorem print_history_is_not_the_entries:
  "print_history (fst (run
        [Execute (BuyTrade ''AAPL'' 100 (decimal 18550 2)),
         Execute (BuyTrade ''GOOGL'' 50 (decimal 14025 2)),
         Execute (SellTrade ''MSFT'' 75 (decimal 42000 2)), Undo, Undo, Redo]
        (TradeHistory_init, Portfolio_init (decimal 1000000 0)))) []
     = [''  Trade History:'', ''    1. BUY 100 AAPL @ $185.50'', ''    2. BUY 50 GOOGL @ $140.25'']
   \<and> [''  Trade History:'', ''    1. BUY 100 AAPL @ $185.50'', ''    2. BUY 50 GOOGL @ $140.25'']
       \<noteq> [''1. BUY 100 AAPL @ $185.50'', ''2. BUY 50 GOOGL @ $140.25'']"
  by code_simp

text \<open>
  C7, amended. \<open>print_history\<close> appends to the standard output the heading
  \<open>Trade History:\<close> after two spaces and then one line for each action of the undo
  stack, in the order of insertion: four spaces, the number of the action counted
  from 1, a full stop, a space and the description of the action; when the undo stack
  is empty it appends the line \<open>(empty)\<close> after four spaces. It returns nothing, and
  as a \<open>const\<close> member it leaves the history as it is. In the scenario the
  descriptions of the undo stack are \<open>BUY 100 AAPL @ $185.50\<close> and
  \<open>BUY 50 GOOGL @ $140.25\<close>, in this order, and the lines written after the heading
  are these two, numbered 1 and 2.
\<close>

theorem print_history_lists_undo_stack:
  "print_history h out =
     out @ [''  Trade History:'']
     @ map (\<lambda>k. ''    '' @ show_nat (int k + 1) @ ''. '' @ c_str (action_description (executed h ! k)))
         [0..<length (executed h)]
     @ (if executed h = [] then [''    (empty)''] else [])
   \<and> map action_description (executed (fst (run
        [Execute (BuyTrade ''AAPL'' 100 (decimal 18550 2)),
         Execute (BuyTrade ''GOOGL'' 50 (decimal 14025 2)),
         Execute (SellTrade ''MSFT'' 75 (decimal 42000 2)), Undo, Undo, Redo]
        (TradeHistory_init, Portfolio_init (decimal 1000000 0)))))
     = [''BUY 100 AAPL @ $185.50'', ''BUY 50 GOOGL @ $140.25'']
   \<and> print_history (fst (run
        [Execute (BuyTrade ''AAPL'' 100 (decimal 18550 2)),
         Execute (BuyTrade ''GOOGL'' 50 (decimal 14025 2)),
         Execute (SellTrade ''MSFT'' 75 (decimal 42000 2)), Undo, Undo, Redo]
        (TradeHistory_init, Portfolio_init (decimal 1000000 0)))) out
     = out @ [''  Trade History:''] @ map (\<lambda>entry. ''    '' @ entry)
         [''1. BUY 100 AAPL @ $185.50'', ''2. BUY 50 GOOGL @ $140.25'']"
proof -
  let ?h = "fst (run
        [Execute (BuyTrade ''AAPL'' 100 (decimal 18550 2)),
         Execute (BuyTrade ''GOOGL'' 50 (decimal 14025 2)),
         Execute (SellTrade ''MSFT'' 75 (decimal 42000 2)), Undo, Undo, Redo]
        (TradeHistory_init, Portfolio_init (decimal 1000000 0)))"
  have g: "print_history h out =
     out @ [''  Trade History:'']
     @ map (\<lambda>k. ''    '' @ show_nat (int k + 1) @ ''. '' @ c_str (action_description (executed h ! k)))
         [0..<length (executed h)]
     @ (if executed h = [] then [''    (empty)''] else [])" for h out
    by (simp add: print_history_def print_history_loop_map Let_def)
  have d: "map action_description (executed ?h)
     = [''BUY 100 AAPL @ $185.50'', ''BUY 50 GOOGL @ $140.25'']"
    by code_simp
  have e: "print_history ?h [] = [''  Trade History:''] @ map (\<lambda>entry. ''    '' @ entry)
         [''1. BUY 100 AAPL @ $185.50'', ''2. BUY 50 GOOGL @ $140.25'']"
    by code_simp
  have o: "print_history ?h out = out @ print_history ?h []"
    by (simp only: g append_Nil)
  have t: "print_history ?h out = out @ [''  Trade History:''] @ map (\<lambda>entry. ''    '' @ entry)
         [''1. BUY 100 AAPL @ $185.50'', ''2. BUY 50 GOOGL @ $140.25'']"
    by (subst o, subst e, rule refl)
  show ?thesis
    by (intro conjI) (rule g d t)+
qed

subsection \<open>The effect of an action\<close>

text \<open>
  C8. Executing a \<open>BuyTrade\<close> adds its quantity to the entry of its symbol (0 where
  there was none) and subtracts the double product \<open>quantity * price\<close> from the cash;
  a \<open>SellTrade\<close> subtracts the quantity and adds the product. On a portfolio with cash
  \<open>1000000.00\<close> and no position, buying 100 AAPL at \<open>185.50\<close> leaves the cash
  \<open>981450.00\<close> and 100 AAPL; a symbol without entry has the quantity 0; and selling 75
  MSFT there leaves the position \<open>-75\<close>. In the C program, a command built by
  \<open>cmd_buy\<close> or \<open>cmd_sell\<close> has a symbol that fits \<open>char[16]\<close>, and executing it
  calls \<open>portfolio_buy\<close> or \<open>portfolio_sell\<close> with that symbol; these do the same to
  the positions that the slots hold, adding to the cash the negated product and the
  product; they return whenever the portfolio holds the symbol or has a free slot,
  and index past the arrays on a new symbol when all \<open>MAX_POSITIONS\<close> slots are used.
  The same purchase on \<open>portfolio_init(1000000.0)\<close> takes the slot 0 for AAPL with the
  quantity 100 and leaves the cash \<open>981450.00\<close>, and the sale of 75 MSFT there leaves
  \<open>-75\<close>.
\<close>

theorem execute_action_effect:
  "positions (execute_action (BuyTrade symb qty pr) p)
     = (positions p)(symb \<mapsto> (case positions p symb of None \<Rightarrow> 0 | Some q \<Rightarrow> q) + qty)
   \<and> cash (execute_action (BuyTrade symb qty pr) p) = fsub (cash p) (fmul (double_of_int qty) pr)
   \<and> positions (execute_action (SellTrade symb qty pr) p)
     = (positions p)(symb \<mapsto> (case positions p symb of None \<Rightarrow> 0 | Some q \<Rightarrow> q) - qty)
   \<and> cash (execute_action (SellTrade symb qty pr) p) = fadd (cash p) (fmul (double_of_int qty) pr)
   \<and> cash (execute_action (BuyTrade ''AAPL'' 100 (decimal 18550 2)) (Portfolio_init (decimal 1000000 0)))
     = decimal 98145000 2
   \<and> valof (decimal 98145000 2) = 981450
   \<and> shares (execute_action (BuyTrade ''AAPL'' 100 (decimal 18550 2)) (Portfolio_init (decimal 1000000 0)))
       ''AAPL'' = 100
   \<and> shares (Portfolio_init c) symb = 0
   \<and> sint (shares (execute_action (SellTrade ''MSFT'' 75 (decimal 42000 2)) (Portfolio_init (decimal 1000000 0)))
       ''MSFT'') = - 75
   \<and> is_symbol (take 15 (c_str long_name))
   \<and> cmd_execute (cmd_buy long_name qty pr) pc = portfolio_buy pc (take 15 (c_str long_name)) qty pr
   \<and> cmd_execute (cmd_sell long_name qty pr) pc = portfolio_sell pc (take 15 (c_str long_name)) qty pr
   \<and> (wf_portfolio pc \<and> is_symbol name \<longrightarrow>
        (case portfolio_buy pc name qty pr of
           Inl f \<Rightarrow> positions_c pc name = None \<and> count pc = MAX_POSITIONS
         | Inr pc' \<Rightarrow>
             positions_c pc' =
               (positions_c pc)(name \<mapsto> (case positions_c pc name of None \<Rightarrow> 0 | Some q \<Rightarrow> q) + qty)
             \<and> cash_c pc' = fadd (cash_c pc) (fneg (fmul (double_of_int qty) pr)))
        \<and> (case portfolio_sell pc name qty pr of
             Inl f \<Rightarrow> positions_c pc name = None \<and> count pc = MAX_POSITIONS
           | Inr pc' \<Rightarrow>
               positions_c pc' =
                 (positions_c pc)(name \<mapsto> (case positions_c pc name of None \<Rightarrow> 0 | Some q \<Rightarrow> q) - qty)
               \<and> cash_c pc' = fadd (cash_c pc) (fmul (double_of_int qty) pr))
        \<and> (positions_c pc name = None \<and> count pc = MAX_POSITIONS \<longrightarrow>
             portfolio_buy pc name qty pr = Inl Out_of_bounds
             \<and> portfolio_sell pc name qty pr = Inl Out_of_bounds))
   \<and> (case cmd_execute (cmd_buy ''AAPL'' 100 (decimal 18550 2)) (portfolio_init (decimal 1000000 0)) of
         Inl f \<Rightarrow> False
       | Inr p' \<Rightarrow>
           count p' = 1 \<and> symbols p' ! 0 = ''AAPL'' \<and> quantities p' ! 0 = 100
           \<and> cash_c p' = decimal 98145000 2)
   \<and> (case cmd_execute (cmd_sell ''MSFT'' 75 (decimal 42000 2)) (portfolio_init (decimal 1000000 0)) of
         Inl f \<Rightarrow> False
       | Inr p' \<Rightarrow> sint (shares_c p' ''MSFT'') = - 75)"
proof -
  have 6: "(case cmd_execute (cmd_buy ''AAPL'' 100 (decimal 18550 2)) (portfolio_init (decimal 1000000 0)) of
         Inl f \<Rightarrow> False
       | Inr p' \<Rightarrow>
           count p' = 1 \<and> symbols p' ! 0 = ''AAPL'' \<and> quantities p' ! 0 = 100
           \<and> cash_c p' = decimal 98145000 2)"
    by code_simp
  have 7: "(case cmd_execute (cmd_sell ''MSFT'' 75 (decimal 42000 2)) (portfolio_init (decimal 1000000 0)) of
         Inl f \<Rightarrow> False
       | Inr p' \<Rightarrow> sint (shares_c p' ''MSFT'') = - 75)"
    by code_simp
  have 1: "cash (execute_action (BuyTrade ''AAPL'' 100 (decimal 18550 2)) (Portfolio_init (decimal 1000000 0)))
     = decimal 98145000 2"
    by code_simp
  have 2: "valof (decimal 98145000 2) = 981450"
    by code_simp
  have 3: "shares (execute_action (BuyTrade ''AAPL'' 100 (decimal 18550 2)) (Portfolio_init (decimal 1000000 0)))
       ''AAPL'' = 100"
    by code_simp
  have 4: "sint (shares (execute_action (SellTrade ''MSFT'' 75 (decimal 42000 2)) (Portfolio_init (decimal 1000000 0)))
       ''MSFT'') = - 75"
    by code_simp
  have 5: "shares (Portfolio_init c) symb = 0"
    by (simp add: shares_def subscript_def Portfolio_init_def)
  have adj: "(case portfolio_adjust pc name q d of
           Inl f \<Rightarrow> positions_c pc name = None \<and> count pc = MAX_POSITIONS
         | Inr pc' \<Rightarrow>
             positions_c pc' =
               (positions_c pc)(name \<mapsto> (case positions_c pc name of None \<Rightarrow> 0 | Some q \<Rightarrow> q) + q)
             \<and> cash_c pc' = fadd (cash_c pc) d)"
    if wf: "wf_portfolio pc" and sy: "is_symbol name" for q d
  proof (cases "positions_c pc name \<noteq> None \<or> count pc < MAX_POSITIONS")
    case True
    from portfolio_adjust_ok [OF wf sy True, of q d] show ?thesis
      by (auto simp: subscript_def)
  next
    case False
    with wf have n: "positions_c pc name = None" "count pc = MAX_POSITIONS"
      by (simp_all add: wf_portfolio_def)
    from portfolio_adjust_full [OF wf sy n, of q d] n show ?thesis by simp
  qed
  have full: "portfolio_adjust pc name q d = Inl Out_of_bounds"
    if "wf_portfolio pc" "is_symbol name" "positions_c pc name = None" "count pc = MAX_POSITIONS"
    for q d
    using that by (rule portfolio_adjust_full)
  have 9: "is_symbol (take 15 (c_str long_name))
   \<and> cmd_execute (cmd_buy long_name qty pr) pc = portfolio_buy pc (take 15 (c_str long_name)) qty pr
   \<and> cmd_execute (cmd_sell long_name qty pr) pc = portfolio_sell pc (take 15 (c_str long_name)) qty pr"
    by (simp add: is_symbol_def c_str_take cmd_execute_def cmd_buy_def cmd_sell_def)
  have 8: "wf_portfolio pc \<and> is_symbol name \<longrightarrow>
        (case portfolio_buy pc name qty pr of
           Inl f \<Rightarrow> positions_c pc name = None \<and> count pc = MAX_POSITIONS
         | Inr pc' \<Rightarrow>
             positions_c pc' =
               (positions_c pc)(name \<mapsto> (case positions_c pc name of None \<Rightarrow> 0 | Some q \<Rightarrow> q) + qty)
             \<and> cash_c pc' = fadd (cash_c pc) (fneg (fmul (double_of_int qty) pr)))
        \<and> (case portfolio_sell pc name qty pr of
             Inl f \<Rightarrow> positions_c pc name = None \<and> count pc = MAX_POSITIONS
           | Inr pc' \<Rightarrow>
               positions_c pc' =
                 (positions_c pc)(name \<mapsto> (case positions_c pc name of None \<Rightarrow> 0 | Some q \<Rightarrow> q) - qty)
               \<and> cash_c pc' = fadd (cash_c pc) (fmul (double_of_int qty) pr))
        \<and> (positions_c pc name = None \<and> count pc = MAX_POSITIONS \<longrightarrow>
             portfolio_buy pc name qty pr = Inl Out_of_bounds
             \<and> portfolio_sell pc name qty pr = Inl Out_of_bounds)"
    using adj [of qty "fneg (fmul (double_of_int qty) pr)"]
      adj [of "- qty" "fmul (double_of_int qty) pr"]
      full [of qty "fneg (fmul (double_of_int qty) pr)"]
      full [of "- qty" "fmul (double_of_int qty) pr"]
    by (auto simp: portfolio_buy_def portfolio_sell_def split: sum.splits)
  have 0: "positions (execute_action (BuyTrade symb qty pr) p)
     = (positions p)(symb \<mapsto> (case positions p symb of None \<Rightarrow> 0 | Some q \<Rightarrow> q) + qty)
   \<and> cash (execute_action (BuyTrade symb qty pr) p) = fsub (cash p) (fmul (double_of_int qty) pr)
   \<and> positions (execute_action (SellTrade symb qty pr) p)
     = (positions p)(symb \<mapsto> (case positions p symb of None \<Rightarrow> 0 | Some q \<Rightarrow> q) - qty)
   \<and> cash (execute_action (SellTrade symb qty pr) p) = fadd (cash p) (fmul (double_of_int qty) pr)"
    by (simp add: buy_def sell_def subscript_def)
  from 0 1 2 3 4 5 6 7 8 9 show ?thesis
    by (intro conjI) blast+
qed

theorem execute_action_effect_witness:
  "wf_portfolio (portfolio_init (decimal 1000000 0)) \<and> is_symbol ''AAPL''
   \<and> (case portfolio_buy (portfolio_init (decimal 1000000 0)) ''AAPL'' 100 (decimal 18550 2) of
         Inl f \<Rightarrow> False
       | Inr pc' \<Rightarrow> positions_c pc' ''AAPL'' = Some 100 \<and> cash_c pc' = decimal 98145000 2)
   \<and> wf_portfolio
        \<lparr>symbols = map (\<lambda>n. ''S'' @ show_nat (int n)) [0..<32], quantities = replicate 32 1,
           count = 32, cash_c = decimal 1000000 0\<rparr>
   \<and> positions_c
        \<lparr>symbols = map (\<lambda>n. ''S'' @ show_nat (int n)) [0..<32], quantities = replicate 32 1,
           count = 32, cash_c = decimal 1000000 0\<rparr> ''AAPL'' = None
   \<and> count
        \<lparr>symbols = map (\<lambda>n. ''S'' @ show_nat (int n)) [0..<32], quantities = replicate 32 1,
           count = 32, cash_c = decimal 1000000 0\<rparr> = MAX_POSITIONS
   \<and> portfolio_buy
        \<lparr>symbols = map (\<lambda>n. ''S'' @ show_nat (int n)) [0..<32], quantities = replicate 32 1,
           count = 32, cash_c = decimal 1000000 0\<rparr> ''AAPL'' 100 (decimal 18550 2)
       = Inl Out_of_bounds"
proof -
  let ?P = "portfolio_init (decimal 1000000 0)"
  let ?F = "\<lparr>symbols = map (\<lambda>n. ''S'' @ show_nat (int n)) [0..<32], quantities = replicate 32 1,
           count = 32, cash_c = decimal 1000000 0\<rparr>"
  have wf: "wf_portfolio ?P"
    by (simp add: wf_portfolio_def portfolio_init_def MAX_POSITIONS_def)
  have sy: "is_symbol ''AAPL''"
    by (simp add: is_symbol_def c_str_def)
  have n: "\<not> isl (portfolio_buy ?P ''AAPL'' 100 (decimal 18550 2))"
    by code_simp
  have z: "positions_c ?P ''AAPL'' = None"
    by (simp add: positions_c_def portfolio_init_def)
  have c: "fadd (cash_c ?P) (fneg (fmul (double_of_int 100) (decimal 18550 2))) = decimal 98145000 2"
    by code_simp
  from n obtain pc' where r: "portfolio_buy ?P ''AAPL'' 100 (decimal 18550 2) = Inr pc'"
    by (cases "portfolio_buy ?P ''AAPL'' 100 (decimal 18550 2)") auto
  from wf sy r z
    execute_action_effect [where qty = 100 and pr = "decimal 18550 2" and pc = ?P
      and name = "''AAPL''"]
  have "positions_c pc' ''AAPL'' = Some 100 \<and> cash_c pc' = fadd (cash_c ?P) (fneg (fmul (double_of_int 100) (decimal 18550 2)))"
    by simp
  with c r have 1: "(case portfolio_buy ?P ''AAPL'' 100 (decimal 18550 2) of
         Inl f \<Rightarrow> False
       | Inr pc' \<Rightarrow> positions_c pc' ''AAPL'' = Some 100 \<and> cash_c pc' = decimal 98145000 2)"
    by simp
  have wF: "wf_portfolio ?F"
    by (simp add: wf_portfolio_def MAX_POSITIONS_def)
  have zF: "positions_c ?F ''AAPL'' = None"
    by code_simp
  have cF: "count ?F = MAX_POSITIONS"
    by (simp add: MAX_POSITIONS_def)
  from wF sy zF cF
    execute_action_effect [where qty = 100 and pr = "decimal 18550 2" and pc = ?F
      and name = "''AAPL''"]
  have 2: "portfolio_buy ?F ''AAPL'' 100 (decimal 18550 2) = Inl Out_of_bounds"
    by blast
  from wf sy 1 wF zF cF 2 show ?thesis
    by (intro conjI)
qed

subsection \<open>No action is lost\<close>

text \<open>
  C9. \<open>undo\<close> and \<open>redo\<close>, successful or not, leave the undo stack followed by the
  reversed redo stack as it was: a successful \<open>undo\<close> moves the last action of the
  undo stack to the end of the redo stack, and a successful \<open>redo\<close> moves it back.
  Only \<open>execute\<close> changes the actions that the history holds: it appends the new
  action to the undo stack and leaves the redo stack empty. The C history does the
  same on the used parts of its two arrays, whenever the call stays inside them.
\<close>

theorem undo_redo_keep_actions:
  "executed (fst (snd (undo (h, p)))) @ rev (undone (fst (snd (undo (h, p)))))
     = executed h @ rev (undone h)
   \<and> executed (fst (snd (redo (h, p)))) @ rev (undone (fst (snd (redo (h, p)))))
     = executed h @ rev (undone h)
   \<and> (fst (undo (h, p)) \<longrightarrow>
        executed (fst (snd (undo (h, p)))) = butlast (executed h)
        \<and> undone (fst (snd (undo (h, p)))) = undone h @ [last (executed h)])
   \<and> (fst (redo (h, p)) \<longrightarrow>
        undone (fst (snd (redo (h, p)))) = butlast (undone h)
        \<and> executed (fst (snd (redo (h, p)))) = executed h @ [last (undone h)])
   \<and> executed (fst (execute a (h, p))) = executed h @ [a]
   \<and> undone (fst (execute a (h, p))) = []
   \<and> (wf_history hc \<longrightarrow>
        (case history_undo hc pc of
           Inl f \<Rightarrow> True
         | Inr (r, hc', pc') \<Rightarrow>
             undo_stack_c hc' @ rev (redo_stack_c hc') = undo_stack_c hc @ rev (redo_stack_c hc)
             \<and> (r \<noteq> 0 \<longrightarrow>
                  undo_stack_c hc' = butlast (undo_stack_c hc)
                  \<and> redo_stack_c hc' = redo_stack_c hc @ [last (undo_stack_c hc)]))
        \<and> (case history_redo hc pc of
             Inl f \<Rightarrow> True
           | Inr (r, hc', pc') \<Rightarrow>
               undo_stack_c hc' @ rev (redo_stack_c hc') = undo_stack_c hc @ rev (redo_stack_c hc)
               \<and> (r \<noteq> 0 \<longrightarrow>
                    redo_stack_c hc' = butlast (redo_stack_c hc)
                    \<and> undo_stack_c hc' = undo_stack_c hc @ [last (redo_stack_c hc)]))
        \<and> (case history_execute hc cmd pc of
             Inl f \<Rightarrow> True
           | Inr (hc', pc') \<Rightarrow>
               undo_stack_c hc' = undo_stack_c hc @ [cmd] \<and> redo_stack_c hc' = []))"
proof -
  have b: "butlast (executed h) @ [last (executed h)] = executed h" if "executed h \<noteq> []"
    using that by simp
  have l: "last (undone h) # rev (butlast (undone h)) = rev (undone h)"
    if "undone h \<noteq> []"
    using that by (cases "undone h" rule: rev_cases) simp_all
  have cpp: "executed (fst (snd (undo (h, p)))) @ rev (undone (fst (snd (undo (h, p)))))
     = executed h @ rev (undone h)
   \<and> executed (fst (snd (redo (h, p)))) @ rev (undone (fst (snd (redo (h, p)))))
     = executed h @ rev (undone h)
   \<and> (fst (undo (h, p)) \<longrightarrow>
        executed (fst (snd (undo (h, p)))) = butlast (executed h)
        \<and> undone (fst (snd (undo (h, p)))) = undone h @ [last (executed h)])
   \<and> (fst (redo (h, p)) \<longrightarrow>
        undone (fst (snd (redo (h, p)))) = butlast (undone h)
        \<and> executed (fst (snd (redo (h, p)))) = executed h @ [last (undone h)])
   \<and> executed (fst (execute a (h, p))) = executed h @ [a]
   \<and> undone (fst (execute a (h, p))) = []"
    using b l by (simp add: undo_def redo_def execute_def Let_def)
  have u: "(case history_undo hc pc of
           Inl f \<Rightarrow> True
         | Inr (r, hc', pc') \<Rightarrow>
             undo_stack_c hc' @ rev (redo_stack_c hc') = undo_stack_c hc @ rev (redo_stack_c hc)
             \<and> (r \<noteq> 0 \<longrightarrow>
                  undo_stack_c hc' = butlast (undo_stack_c hc)
                  \<and> redo_stack_c hc' = redo_stack_c hc @ [last (undo_stack_c hc)]))"
    if wf: "wf_history hc"
  proof (cases "history_undo hc pc")
    case (Inl f)
    then show ?thesis by simp
  next
    case (Inr res)
    obtain r hc' pc' where res: "res = (r, hc', pc')" by (cases res)
    from wf Inr [unfolded res] show ?thesis
    proof (cases rule: history_undo_stacks)
      case unchanged
      with Inr res show ?thesis by simp
    next
      case undone
      with Inr res show ?thesis by simp
    qed
  qed
  have r: "(case history_redo hc pc of
             Inl f \<Rightarrow> True
           | Inr (r, hc', pc') \<Rightarrow>
               undo_stack_c hc' @ rev (redo_stack_c hc') = undo_stack_c hc @ rev (redo_stack_c hc)
               \<and> (r \<noteq> 0 \<longrightarrow>
                    redo_stack_c hc' = butlast (redo_stack_c hc)
                    \<and> undo_stack_c hc' = undo_stack_c hc @ [last (redo_stack_c hc)]))"
    if wf: "wf_history hc"
  proof (cases "history_redo hc pc")
    case (Inl f)
    then show ?thesis by simp
  next
    case (Inr res)
    obtain r hc' pc' where res: "res = (r, hc', pc')" by (cases res)
    from wf Inr [unfolded res] show ?thesis
    proof (cases rule: history_redo_stacks)
      case unchanged
      with Inr res show ?thesis by simp
    next
      case redone
      have "last (redo_stack_c hc) # rev (butlast (redo_stack_c hc)) = rev (redo_stack_c hc)"
        using redone(2) by (cases "redo_stack_c hc" rule: rev_cases) simp_all
      with redone Inr res show ?thesis by simp
    qed
  qed
  have e: "(case history_execute hc cmd pc of
             Inl f \<Rightarrow> True
           | Inr (hc', pc') \<Rightarrow>
               undo_stack_c hc' = undo_stack_c hc @ [cmd] \<and> redo_stack_c hc' = [])"
    if wf: "wf_history hc"
  proof (cases "history_execute hc cmd pc")
    case (Inl f)
    then show ?thesis by simp
  next
    case (Inr res)
    obtain hc' pc' where res: "res = (hc', pc')" by (cases res)
    from history_execute_stacks(2,3) [OF wf Inr [unfolded res]] Inr res
    show ?thesis by simp
  qed
  from cpp u r e show ?thesis by blast
qed

theorem undo_redo_keep_actions_witness:
  "wf_history (zero_history\<lparr>executed_c := (executed_c zero_history)[0 := cmd_buy ''AAPL'' 100 (decimal 18550 2)],
                            exec_count := 1\<rparr>)
   \<and> (case history_undo
            (zero_history\<lparr>executed_c := (executed_c zero_history)[0 := cmd_buy ''AAPL'' 100 (decimal 18550 2)],
                           exec_count := 1\<rparr>)
            (portfolio_init (decimal 1000000 0)) of
         Inl f \<Rightarrow> False
       | Inr (r, hc', pc') \<Rightarrow>
           r = 1 \<and> undo_stack_c hc' = [] \<and> redo_stack_c hc' = [cmd_buy ''AAPL'' 100 (decimal 18550 2)])
   \<and> wf_history (zero_history\<lparr>undone_c := (undone_c zero_history)[0 := cmd_buy ''AAPL'' 100 (decimal 18550 2)],
                              undo_count := 1\<rparr>)
   \<and> (case history_redo
            (zero_history\<lparr>undone_c := (undone_c zero_history)[0 := cmd_buy ''AAPL'' 100 (decimal 18550 2)],
                           undo_count := 1\<rparr>)
            (portfolio_init (decimal 1000000 0)) of
         Inl f \<Rightarrow> False
       | Inr (r, hc', pc') \<Rightarrow>
           r = 1 \<and> redo_stack_c hc' = [] \<and> undo_stack_c hc' = [cmd_buy ''AAPL'' 100 (decimal 18550 2)])
   \<and> (case history_execute
            (zero_history\<lparr>undone_c := (undone_c zero_history)[0 := cmd_buy ''AAPL'' 100 (decimal 18550 2)],
                           undo_count := 1\<rparr>)
            (cmd_sell ''MSFT'' 75 (decimal 42000 2)) (portfolio_init (decimal 1000000 0)) of
         Inl f \<Rightarrow> False
       | Inr (hc', pc') \<Rightarrow>
           undo_stack_c hc' = [cmd_sell ''MSFT'' 75 (decimal 42000 2)] \<and> redo_stack_c hc' = [])
   \<and> fst (undo (\<lparr>executed = [BuyTrade ''AAPL'' 100 (decimal 18550 2)], undone = []\<rparr>,
                 Portfolio_init (decimal 1000000 0)))
   \<and> undone (fst (snd (undo (\<lparr>executed = [BuyTrade ''AAPL'' 100 (decimal 18550 2)], undone = []\<rparr>,
                 Portfolio_init (decimal 1000000 0)))))
       = [BuyTrade ''AAPL'' 100 (decimal 18550 2)]
   \<and> fst (redo (\<lparr>executed = [], undone = [BuyTrade ''AAPL'' 100 (decimal 18550 2)]\<rparr>,
                 Portfolio_init (decimal 1000000 0)))
   \<and> executed (fst (snd (redo (\<lparr>executed = [], undone = [BuyTrade ''AAPL'' 100 (decimal 18550 2)]\<rparr>,
                 Portfolio_init (decimal 1000000 0)))))
       = [BuyTrade ''AAPL'' 100 (decimal 18550 2)]"
proof -
  let ?cmd = "cmd_buy ''AAPL'' 100 (decimal 18550 2)"
  let ?sell = "cmd_sell ''MSFT'' 75 (decimal 42000 2)"
  let ?H = "zero_history\<lparr>executed_c := (executed_c zero_history)[0 := ?cmd], exec_count := 1\<rparr>"
  let ?R = "zero_history\<lparr>undone_c := (undone_c zero_history)[0 := ?cmd], undo_count := 1\<rparr>"
  let ?P = "portfolio_init (decimal 1000000 0)"
  let ?A = "BuyTrade ''AAPL'' 100 (decimal 18550 2)"
  let ?h = "\<lparr>executed = [?A], undone = []\<rparr>"
  let ?g = "\<lparr>executed = [], undone = [?A]\<rparr>"
  let ?p = "Portfolio_init (decimal 1000000 0)"
  have wf: "wf_history ?H" "wf_history ?R"
    by (simp_all add: wf_history_def zero_history_def MAX_HISTORY_def)
  have s: "undo_stack_c ?H = [?cmd]" "redo_stack_c ?H = []"
    "redo_stack_c ?R = [?cmd]" "undo_stack_c ?R = []"
    by (simp_all add: undo_stack_c_def redo_stack_c_def zero_history_def MAX_HISTORY_def
        take_update_snoc)
  have n: "\<not> isl (history_undo ?H ?P)" "fst (projr (history_undo ?H ?P)) = 1"
    "\<not> isl (history_redo ?R ?P)" "fst (projr (history_redo ?R ?P)) = 1"
    "\<not> isl (history_execute ?R ?sell ?P)"
    by code_simp+
  from n(1,2) obtain hu pu where ru: "history_undo ?H ?P = Inr (1, hu, pu)"
    by (cases "history_undo ?H ?P") (auto simp: prod_eq_iff)
  from n(3,4) obtain hr pr where rr: "history_redo ?R ?P = Inr (1, hr, pr)"
    by (cases "history_redo ?R ?P") (auto simp: prod_eq_iff)
  from n(5) obtain he pe where re: "history_execute ?R ?sell ?P = Inr (he, pe)"
    by (cases "history_execute ?R ?sell ?P") (auto simp: prod_eq_iff)
  note t = undo_redo_keep_actions [where h = ?h and p = ?p and hc = ?H and pc = ?P]
  note v = undo_redo_keep_actions [where h = ?g and p = ?p and hc = ?R and pc = ?P and cmd = ?sell]
  from t wf(1) have "(case history_undo ?H ?P of
           Inl f \<Rightarrow> True
         | Inr (r, hc', pc') \<Rightarrow>
             undo_stack_c hc' @ rev (redo_stack_c hc') = undo_stack_c ?H @ rev (redo_stack_c ?H)
             \<and> (r \<noteq> 0 \<longrightarrow>
                  undo_stack_c hc' = butlast (undo_stack_c ?H)
                  \<and> redo_stack_c hc' = redo_stack_c ?H @ [last (undo_stack_c ?H)]))"
    by blast
  then have 1: "(case history_undo ?H ?P of
         Inl f \<Rightarrow> False
       | Inr (r, hc', pc') \<Rightarrow> r = 1 \<and> undo_stack_c hc' = [] \<and> redo_stack_c hc' = [?cmd])"
    unfolding ru sum.case prod.case s by simp
  from v wf(2) have "(case history_redo ?R ?P of
             Inl f \<Rightarrow> True
           | Inr (r, hc', pc') \<Rightarrow>
               undo_stack_c hc' @ rev (redo_stack_c hc') = undo_stack_c ?R @ rev (redo_stack_c ?R)
               \<and> (r \<noteq> 0 \<longrightarrow>
                    redo_stack_c hc' = butlast (redo_stack_c ?R)
                    \<and> undo_stack_c hc' = undo_stack_c ?R @ [last (redo_stack_c ?R)]))"
    by blast
  then have 2: "(case history_redo ?R ?P of
         Inl f \<Rightarrow> False
       | Inr (r, hc', pc') \<Rightarrow> r = 1 \<and> redo_stack_c hc' = [] \<and> undo_stack_c hc' = [?cmd])"
    unfolding rr sum.case prod.case s by simp
  from v wf(2) have "(case history_execute ?R ?sell ?P of
             Inl f \<Rightarrow> True
           | Inr (hc', pc') \<Rightarrow>
               undo_stack_c hc' = undo_stack_c ?R @ [?sell] \<and> redo_stack_c hc' = [])"
    by blast
  then have 3: "(case history_execute ?R ?sell ?P of
         Inl f \<Rightarrow> False
       | Inr (hc', pc') \<Rightarrow> undo_stack_c hc' = [?sell] \<and> redo_stack_c hc' = [])"
    unfolding re sum.case prod.case s by simp
  have f: "fst (undo (?h, ?p))" "fst (redo (?g, ?p))"
    by (simp_all add: undo_def redo_def)
  from f(1) t have 4: "undone (fst (snd (undo (?h, ?p)))) = [?A]"
    by simp
  from f(2) v have 5: "executed (fst (snd (redo (?g, ?p)))) = [?A]"
    by simp
  from wf 1 2 3 f 4 5 show ?thesis
    by (intro conjI)
qed

subsection \<open>The capacity of the C history\<close>



end
